theory Spec2Isabelle
  imports Main "HOL-Library.Sublist" "HOL-Library.AList"
begin

section \<open>Strings and paths\<close>

text \<open>
  The program is Python 2 on a POSIX system: \<open>str\<close> is a byte string, modelled as
  \<^typ>\<open>string\<close>.  The module-level constant \<open>RESULTS_DIR_ROOT\<close> is read
  once from the configuration file; every function that uses it takes it as the parameter
  \<open>root\<close>.
\<close>

text \<open>\<open>s.replace(old, new)\<close> for one-character \<open>old\<close> and \<open>new\<close>.\<close>

definition str_replace :: "char \<Rightarrow> char \<Rightarrow> string \<Rightarrow> string" where
  "str_replace old new s = map (\<lambda>c. if c = old then new else c) s"

text \<open>
  \<open>os.path.join\<close> (\<open>posixpath.join\<close> of the Python 2.7 standard library, which is
  not part of the repository): a component that starts with a slash discards what came
  before it; otherwise it is appended, after a slash unless the path so far is empty or
  already ends with one.
\<close>

definition join_step :: "string \<Rightarrow> string \<Rightarrow> string" where
  "join_step path b =
     (if b \<noteq> [] \<and> hd b = CHR ''/'' then b
      else if path = [] \<or> last path = CHR ''/'' then path @ b
      else path @ ''/'' @ b)"

definition os_path_join :: "string \<Rightarrow> string list \<Rightarrow> string" where
  "os_path_join a p = foldl join_step a p"

text \<open>\<open>normpath(*fragments)\<close>\<close>

definition normpath :: "string \<Rightarrow> string list \<Rightarrow> string" where
  "normpath root fragments =
     (let path_fragments = map (str_replace CHR ''/'' CHR ''-'') fragments;
          full_path = os_path_join root path_fragments
      in str_replace CHR '' '' CHR ''_'' full_path)"


datatype pyval = PNone | PBool bool | PInt int | PStr string | PList "pyval list" | PDict nat

type_synonym pydict = "(string \<times> pyval) list"

type_synonym store = "pydict list"

datatype errno = ENOENT | EEXIST | ENOTDIR | EISDIR | ELOOP

datatype error = KeyError string | TypeError | BadRef | ValueError | IOError errno | OSError errno
  | RenderError | ShellUnmodelled

definition keys :: "pydict \<Rightarrow> string set" where
  "keys d = fst ` set d"

fun truthy :: "store \<Rightarrow> pyval \<Rightarrow> bool option" where
  "truthy st PNone = Some False"
| "truthy st (PBool b) = Some b"
| "truthy st (PInt i) = Some (i \<noteq> 0)"
| "truthy st (PStr s) = Some (s \<noteq> [])"
| "truthy st (PList l) = Some (l \<noteq> [])"
| "truthy st (PDict a) = (if a < length st then Some (st ! a \<noteq> []) else None)"

definition del_item :: "store \<Rightarrow> pyval \<Rightarrow> string \<Rightarrow> error + store" where
  "del_item st obj key =
     (case obj of
        PDict a \<Rightarrow>
          if a < length st then
            (if key \<in> keys (st ! a) then Inr (st[a := AList.delete key (st ! a)])
             else Inl (KeyError key))
          else Inl BadRef
      | _ \<Rightarrow> Inl TypeError)"

fun del_items :: "store \<Rightarrow> pyval \<Rightarrow> string list \<Rightarrow> error + store" where
  "del_items st obj [] = Inr st"
| "del_items st obj (k # ks) =
     (case del_item st obj k of Inl e \<Rightarrow> Inl e | Inr st' \<Rightarrow> del_items st' obj ks)"

definition dict_get :: "pydict \<Rightarrow> string \<Rightarrow> pyval" where
  "dict_get d k = (case map_of d k of None \<Rightarrow> PNone | Some v \<Rightarrow> v)"

definition sentinel :: pydict where
  "sentinel = [(''username'', PStr ''COMPTE SUPPRIME'')]"

fun redact_comment :: "store \<Rightarrow> pyval \<Rightarrow> error + store" where
  "redact_comment st (PDict a) =
     (case del_item st (PDict a) ''idMemberCreator'' of
        Inl e \<Rightarrow> Inl e
      | Inr st1 \<Rightarrow>
          (let member_info = dict_get (st1 ! a) ''memberCreator'' in
           case truthy st1 member_info of
             None \<Rightarrow> Inl BadRef
           | Some True \<Rightarrow> del_items st1 member_info [''avatarHash'', ''fullName'', ''initials'']
           | Some False \<Rightarrow>
               Inr ((st1 @ [sentinel])
                      [a := AList.update ''memberCreator'' (PDict (length st1)) (st1 ! a)])))"
| "redact_comment st comm = Inl TypeError"

fun dl_card_comments :: "store \<Rightarrow> pyval list \<Rightarrow> error + store" where
  "dl_card_comments st [] = Inr st"
| "dl_card_comments st (comm # comms) =
     (case redact_comment st comm of
        Inl e \<Rightarrow> Inl e
      | Inr st' \<Rightarrow> dl_card_comments st' comms)"

record checklist =
  cl_id :: pyval
  cl_name :: pyval
  cl_items :: pyval

record card =
  card_id :: string
  card_name :: string
  description :: pyval
  closed :: pyval
  url :: pyval
  member_ids :: pyval
  short_id :: int
  board_id :: pyval
  list_id :: pyval
  labels :: pyval
  badges :: pyval
  due :: pyval
  checked :: pyval
  comments :: "pyval list"
  checklists :: "checklist list"

fun dl_card_checklists :: "store \<Rightarrow> checklist list \<Rightarrow> store \<times> pyval list" where
  "dl_card_checklists st [] = (st, [])"
| "dl_card_checklists st (cl # cls) =
     (let st' = st @ [[(''id'', cl_id cl), (''name'', cl_name cl), (''items'', cl_items cl)]];
          (st'', vs) = dl_card_checklists st' cls
      in (st'', PDict (length st) # vs))"

definition dl_card_fields :: "card \<Rightarrow> pydict" where
  "dl_card_fields c =
     [(''id'', PStr (card_id c)), (''name'', PStr (card_name c)),
      (''description'', description c), (''closed'', closed c), (''url'', url c),
      (''member_ids'', member_ids c), (''short_id'', PInt (short_id c)),
      (''board_id'', board_id c), (''list_id'', list_id c), (''labels'', labels c),
      (''badges'', badges c), (''due'', due c), (''checked'', checked c)]"

definition dl_card_data :: "store \<Rightarrow> card \<Rightarrow> error + store \<times> pydict" where
  "dl_card_data st c =
     (case dl_card_comments st (comments c) of
        Inl e \<Rightarrow> Inl e
      | Inr st1 \<Rightarrow>
          (let (st2, cl_data) = dl_card_checklists st1 (checklists c)
           in Inr (st2, dl_card_fields c @
                        [(''comments'', PList (comments c)), (''checklists'', PList cl_data)])))"

definition redact_author :: "pydict \<Rightarrow> pydict" where
  "redact_author d = AList.delete ''initials'' (AList.delete ''fullName'' (AList.delete ''avatarHash'' d))"

definition stable :: "store \<Rightarrow> store \<Rightarrow> bool" where
  "stable st st' \<longleftrightarrow>
     length st \<le> length st' \<and>
     (\<forall>a < length st.
        keys (st' ! a) \<subseteq> insert ''memberCreator'' (keys (st ! a)) \<and>
        (''idMemberCreator'' \<in> keys (st' ! a) \<longrightarrow>
           map_of (st' ! a) ''memberCreator'' = map_of (st ! a) ''memberCreator'') \<and>
        (''idMemberCreator'' \<notin> keys (st ! a) \<longrightarrow>
           map_of (st' ! a) ''memberCreator'' = map_of (st ! a) ''memberCreator'') \<and>
        (''idMemberCreator'' \<notin> keys (st ! a) \<and> ''avatarHash'' \<notin> keys (st ! a) \<longrightarrow>
           st' ! a = st ! a))"

definition redacted :: "store \<Rightarrow> pyval \<Rightarrow> bool" where
  "redacted st comm \<longleftrightarrow>
     (\<exists>a m. comm = PDict a \<and> a < length st \<and> ''idMemberCreator'' \<notin> keys (st ! a) \<and>
        map_of (st ! a) ''memberCreator'' = Some (PDict m) \<and> m < length st \<and>
        ''avatarHash'' \<notin> keys (st ! m) \<and> ''fullName'' \<notin> keys (st ! m) \<and>
        ''initials'' \<notin> keys (st ! m))"

definition has_sentinel :: "store \<Rightarrow> pyval \<Rightarrow> bool" where
  "has_sentinel st comm \<longleftrightarrow>
     (\<exists>a m. comm = PDict a \<and> a < length st \<and> ''idMemberCreator'' \<notin> keys (st ! a) \<and>
        map_of (st ! a) ''memberCreator'' = Some (PDict m) \<and> m < length st \<and>
        st ! m = sentinel)"

definition author_absent :: "store \<Rightarrow> pyval \<Rightarrow> bool" where
  "author_absent st comm \<longleftrightarrow>
     (\<exists>a. comm = PDict a \<and> a < length st \<and>
        truthy st (dict_get (st ! a) ''memberCreator'') = Some False)"

definition st0 :: store where
  "st0 = [[(''idMemberCreator'', PStr ''m1''), (''date'', PStr ''2014''),
           (''memberCreator'', PDict 1)],
          [(''id'', PStr ''m1''), (''avatarHash'', PStr ''h''), (''fullName'', PStr ''Ann Lee''),
           (''initials'', PStr ''AL''), (''username'', PStr ''ann'')],
          [(''idMemberCreator'', PStr ''m2''), (''date'', PStr ''2015'')],
          [(''text'', PStr ''unrelated'')]]"

definition card0 :: card where
  "card0 = \<lparr>card_id = ''c1'', card_name = ''Card'', description = PStr ''d'', closed = PBool False,
     url = PStr ''u'', member_ids = PList [], short_id = 7, board_id = PStr ''b1'',
     list_id = PStr ''l1'', labels = PList [], badges = PNone, due = PNone, checked = PNone,
     comments = [PDict 0, PDict 2], checklists = []\<rparr>"

definition st0_after :: store where
  "st0_after = [[(''date'', PStr ''2014''), (''memberCreator'', PDict 1)],
          [(''id'', PStr ''m1''), (''username'', PStr ''ann'')],
          [(''date'', PStr ''2015''), (''memberCreator'', PDict 4)],
          [(''text'', PStr ''unrelated'')],
          [(''username'', PStr ''COMPTE SUPPRIME'')]]"

definition card0_data :: pydict where
  "card0_data = dl_card_fields card0 @
     [(''comments'', PList [PDict 0, PDict 2]), (''checklists'', PList [])]"


section \<open>The file system\<close>

datatype node = Dir | File string | Link string

type_synonym path = "string list"

type_synonym filesys = "(path \<times> node) list"

definition node_at :: "filesys \<Rightarrow> path \<Rightarrow> node option" where
  "node_at fs p = (if p = [] then Some Dir else map_of fs p)"

definition is_dir :: "filesys \<Rightarrow> path \<Rightarrow> bool" where
  "is_dir fs p \<longleftrightarrow> node_at fs p = Some Dir"

definition set_node :: "filesys \<Rightarrow> path \<Rightarrow> node \<Rightarrow> filesys" where
  "set_node fs p n = AList.update p n fs"

definition remove_tree :: "filesys \<Rightarrow> path \<Rightarrow> filesys" where
  "remove_tree fs p = filter (\<lambda>(q, n). \<not> prefix p q) fs"

fun split_on :: "char \<Rightarrow> string \<Rightarrow> string list" where
  "split_on c [] = [[]]"
| "split_on c (x # xs) =
     (if x = c then [] # split_on c xs
      else (case split_on c xs of w # ws \<Rightarrow> (x # w) # ws | [] \<Rightarrow> [[x]]))"

definition comps :: "string \<Rightarrow> string list" where
  "comps s = filter (\<lambda>w. w \<noteq> []) (split_on CHR ''/'' s)"

definition isabs :: "string \<Rightarrow> bool" where
  "isabs s \<longleftrightarrow> s \<noteq> [] \<and> hd s = CHR ''/''"

definition MAXSYMLINKS :: nat where
  "MAXSYMLINKS = 40"

fun resolve :: "nat \<Rightarrow> filesys \<Rightarrow> bool \<Rightarrow> path \<Rightarrow> string list \<Rightarrow> errno + path" where
  "resolve n fs follow cur [] = (if is_dir fs cur then Inr cur else Inl ENOTDIR)"
| "resolve n fs follow cur (c # cs) =
     (if \<not> is_dir fs cur then Inl ENOTDIR
      else if c = ''.'' then resolve n fs follow cur cs
      else if c = ''..'' then resolve n fs follow (butlast cur) cs
      else (case node_at fs (cur @ [c]) of
              None \<Rightarrow> if cs = [] then Inr (cur @ [c]) else Inl ENOENT
            | Some Dir \<Rightarrow> resolve n fs follow (cur @ [c]) cs
            | Some (File d) \<Rightarrow> if cs = [] then Inr (cur @ [c]) else Inl ENOTDIR
            | Some (Link t) \<Rightarrow>
                if cs = [] \<and> \<not> follow then Inr (cur @ [c])
                else (case n of
                        0 \<Rightarrow> Inl ELOOP
                      | Suc k \<Rightarrow>
                          if t = [] then Inl ENOENT
                          else resolve k fs follow (if isabs t then [] else cur) (comps t @ cs))))"

definition namei :: "filesys \<Rightarrow> path \<Rightarrow> bool \<Rightarrow> string \<Rightarrow> errno + path" where
  "namei fs cwd follow s =
     (if s = [] then Inl ENOENT
      else resolve MAXSYMLINKS fs follow (if isabs s then [] else cwd) (comps s))"

type_synonym fsres = "(error \<times> filesys) + filesys"

definition os_path_exists :: "filesys \<Rightarrow> path \<Rightarrow> string \<Rightarrow> bool" where
  "os_path_exists fs cwd s =
     (case namei fs cwd True s of Inl e \<Rightarrow> False | Inr p \<Rightarrow> node_at fs p \<noteq> None)"

definition sys_mkdir :: "filesys \<Rightarrow> path \<Rightarrow> string \<Rightarrow> fsres" where
  "sys_mkdir fs cwd s =
     (case namei fs cwd False s of
        Inl e \<Rightarrow> Inl (OSError e, fs)
      | Inr p \<Rightarrow> if node_at fs p \<noteq> None then Inl (OSError EEXIST, fs)
                 else Inr (set_node fs p Dir))"

definition os_symlink :: "filesys \<Rightarrow> path \<Rightarrow> string \<Rightarrow> string \<Rightarrow> fsres" where
  "os_symlink fs cwd target s =
     (if target = [] then Inl (OSError ENOENT, fs)
      else case namei fs cwd False s of
        Inl e \<Rightarrow> Inl (OSError e, fs)
      | Inr p \<Rightarrow> if node_at fs p \<noteq> None then Inl (OSError EEXIST, fs)
                 else Inr (set_node fs p (Link target)))"

definition open_write :: "filesys \<Rightarrow> path \<Rightarrow> string \<Rightarrow> string \<Rightarrow> fsres" where
  "open_write fs cwd s data =
     (case namei fs cwd True s of
        Inl e \<Rightarrow> Inl (IOError e, fs)
      | Inr p \<Rightarrow>
          (case node_at fs p of
             Some Dir \<Rightarrow> Inl (IOError EISDIR, fs)
           | Some (Link t) \<Rightarrow> Inl (IOError ELOOP, fs)
           | _ \<Rightarrow> Inr (set_node fs p (File data))))"

definition rstrip_slash :: "string \<Rightarrow> string" where
  "rstrip_slash s = rev (dropWhile (\<lambda>c. c = CHR ''/'') (rev s))"

definition os_path_split :: "string \<Rightarrow> string \<times> string" where
  "os_path_split p =
     (let tail = rev (takeWhile (\<lambda>c. c \<noteq> CHR ''/'') (rev p));
          head = rev (dropWhile (\<lambda>c. c \<noteq> CHR ''/'') (rev p))
      in (if head \<noteq> [] \<and> \<not> list_all (\<lambda>c. c = CHR ''/'') head then rstrip_slash head else head,
          tail))"

definition os_path_dirname :: "string \<Rightarrow> string" where
  "os_path_dirname p = fst (os_path_split p)"

definition makedirs_split :: "string \<Rightarrow> string \<times> string" where
  "makedirs_split name =
     (let (head, tail) = os_path_split name
      in if tail = [] then os_path_split head else (head, tail))"

function os_makedirs :: "filesys \<Rightarrow> path \<Rightarrow> string \<Rightarrow> fsres" where
  "os_makedirs fs cwd name =
     (if fst (makedirs_split name) \<noteq> [] \<and> snd (makedirs_split name) \<noteq> [] \<and>
         \<not> os_path_exists fs cwd (fst (makedirs_split name))
      then
        (case os_makedirs fs cwd (fst (makedirs_split name)) of
           Inl (e, fs1) \<Rightarrow>
             if e \<noteq> OSError EEXIST then Inl (e, fs1)
             else if snd (makedirs_split name) = ''.'' then Inr fs1
             else sys_mkdir fs1 cwd name
         | Inr fs1 \<Rightarrow>
             if snd (makedirs_split name) = ''.'' then Inr fs1
             else sys_mkdir fs1 cwd name)
      else sys_mkdir fs cwd name)"
  by pat_completeness auto
termination
proof (relation "measure (\<lambda>(fs, cwd, name). length name)")
  show "wf (measure (\<lambda>(fs, cwd, name). length name))" by simp
next
  fix fs :: filesys and cwd :: path and name :: string
  assume "fst (makedirs_split name) \<noteq> [] \<and> snd (makedirs_split name) \<noteq> [] \<and>
          \<not> os_path_exists fs cwd (fst (makedirs_split name))"
  then have t: "snd (makedirs_split name) \<noteq> []" by simp
  have le: "length (fst (os_path_split p)) \<le> length (dropWhile (\<lambda>c. c \<noteq> CHR ''/'') (rev p))" for p
  proof -
    have "length (rstrip_slash h) \<le> length h" for h
      using length_dropWhile_le [of "\<lambda>c. c = CHR ''/''" "rev h"] by (simp add: rstrip_slash_def)
    from this [of "rev (dropWhile (\<lambda>c. c \<noteq> CHR ''/'') (rev p))"]
    show ?thesis by (simp add: os_path_split_def Let_def)
  qed
  have sum: "length (takeWhile P (rev xs)) + length (dropWhile P (rev xs)) = length xs"
    for P and xs :: string
    by (metis length_append length_rev takeWhile_dropWhile_id)
  have lt: "length (fst (os_path_split p)) < length p" if "snd (os_path_split p) \<noteq> []" for p
  proof -
    from that have "takeWhile (\<lambda>c. c \<noteq> CHR ''/'') (rev p) \<noteq> []"
      by (simp add: os_path_split_def Let_def)
    then have "0 < length (takeWhile (\<lambda>c. c \<noteq> CHR ''/'') (rev p))" by simp
    with sum [of "\<lambda>c. c \<noteq> CHR ''/''" p] le [of p] show ?thesis by linarith
  qed
  have le': "length (fst (os_path_split p)) \<le> length p" for p
    using le [of p] sum [of "\<lambda>c. c \<noteq> CHR ''/''" p] by linarith
  have "length (fst (makedirs_split name)) < length name"
  proof (cases "snd (os_path_split name) = []")
    case True
    with t have "snd (os_path_split (fst (os_path_split name))) \<noteq> []"
      by (simp add: makedirs_split_def split_beta)
    from lt [OF this] le' [of name] True show ?thesis
      by (simp add: makedirs_split_def split_beta)
  next
    case False
    from lt [OF this] False show ?thesis
      by (simp add: makedirs_split_def split_beta)
  qed
  then show "((fs, cwd, fst (makedirs_split name)), (fs, cwd, name))
        \<in> measure (\<lambda>(fs, cwd, name). length name)"
    by simp
qed

declare os_makedirs.simps [simp del]

definition sh_plain :: "char \<Rightarrow> bool" where
  "sh_plain c \<longleftrightarrow>
     (let n = (of_char c :: nat)
      in (48 \<le> n \<and> n \<le> 57) \<or> (65 \<le> n \<and> n \<le> 90) \<or> (97 \<le> n \<and> n \<le> 122) \<or> 128 \<le> n \<or>
         c \<in> set ''/._-+,:@%='')"

definition sh_blank :: "char \<Rightarrow> bool" where
  "sh_blank c \<longleftrightarrow> c = CHR '' '' \<or> c = CHR 0x09"

datatype sh_args = Words "string list" | SyntaxError | Unmodelled

definition sh_words :: "string \<Rightarrow> string list" where
  "sh_words s =
     filter (\<lambda>w. w \<noteq> []) (split_on CHR '' '' (map (\<lambda>c. if sh_blank c then CHR '' '' else c) s))"

definition sh_parse :: "string \<Rightarrow> sh_args" where
  "sh_parse s =
     (if list_all (\<lambda>c. sh_plain c \<or> sh_blank c) s then Words (sh_words s)
      else if list_all (\<lambda>c. sh_plain c \<or> sh_blank c \<or> c = CHR ''('' \<or> c = CHR '')'') s
      then SyntaxError
      else Unmodelled)"

definition rm_r_operand :: "path \<Rightarrow> filesys \<Rightarrow> string \<Rightarrow> filesys" where
  "rm_r_operand cwd fs w =
     (if comps w = [] \<or> last (comps w) = ''.'' \<or> last (comps w) = ''..'' then fs
      else case namei fs cwd False w of
             Inl e \<Rightarrow> fs
           | Inr p \<Rightarrow> if node_at fs p = None then fs else remove_tree fs p)"

definition os_system_rm_r :: "filesys \<Rightarrow> path \<Rightarrow> string \<Rightarrow> filesys option" where
  "os_system_rm_r fs cwd full_path =
     (case sh_parse full_path of
        Words ws \<Rightarrow>
          if list_ex (\<lambda>w. hd w = CHR ''-'') ws then None
          else Some (foldl (rm_r_operand cwd) fs ws)
      | SyntaxError \<Rightarrow> Some fs
      | Unmodelled \<Rightarrow> None)"

definition mkdir :: "string \<Rightarrow> filesys \<Rightarrow> path \<Rightarrow> string list \<Rightarrow> fsres" where
  "mkdir root fs cwd path =
     (let full_path = normpath root path
      in if \<not> os_path_exists fs cwd full_path then os_makedirs fs cwd full_path
         else Inr fs)"

definition wipe_dir :: "string \<Rightarrow> filesys \<Rightarrow> path \<Rightarrow> string list \<Rightarrow> fsres" where
  "wipe_dir root fs cwd dirpath =
     (let full_path = normpath root dirpath
      in if os_path_exists fs cwd full_path then
           (case os_system_rm_r fs cwd full_path of
              None \<Rightarrow> Inl (ShellUnmodelled, fs)
            | Some fs1 \<Rightarrow> mkdir root fs1 cwd dirpath)
         else mkdir root fs cwd dirpath)"

fun join_with :: "string \<Rightarrow> string list \<Rightarrow> string" where
  "join_with sep [] = []"
| "join_with sep [w] = w"
| "join_with sep (w # ws) = w @ sep @ join_with sep ws"

definition os_getcwd :: "filesys \<Rightarrow> path \<Rightarrow> errno + string" where
  "os_getcwd fs cwd = (if is_dir fs cwd then Inr (''/'' @ join_with ''/'' cwd) else Inl ENOENT)"

definition norm_step :: "nat \<Rightarrow> string list \<Rightarrow> string \<Rightarrow> string list" where
  "norm_step initial_slashes new_comps part =
     (if part = [] \<or> part = ''.'' then new_comps
      else if part \<noteq> ''..'' \<or> (initial_slashes = 0 \<and> new_comps = []) \<or>
              (new_comps \<noteq> [] \<and> last new_comps = ''..'')
      then new_comps @ [part]
      else if new_comps \<noteq> [] then butlast new_comps
      else new_comps)"

definition os_path_normpath :: "string \<Rightarrow> string" where
  "os_path_normpath path =
     (if path = [] then ''.''
      else
        (let initial_slashes =
               (if hd path = CHR ''/'' then
                  (if take 2 path = ''//'' \<and> take 3 path \<noteq> ''///'' then 2 else 1)
                else 0);
             new_comps = foldl (norm_step initial_slashes) [] (split_on CHR ''/'' path);
             p = replicate initial_slashes CHR ''/'' @ join_with ''/'' new_comps
         in if p = [] then ''.'' else p))"

definition os_path_abspath :: "filesys \<Rightarrow> path \<Rightarrow> string \<Rightarrow> error + string" where
  "os_path_abspath fs cwd p =
     (if isabs p then Inr (os_path_normpath p)
      else case os_getcwd fs cwd of
             Inl e \<Rightarrow> Inl (OSError e)
           | Inr d \<Rightarrow> Inr (os_path_normpath (join_step d p)))"

fun commonprefix :: "string list \<Rightarrow> string list \<Rightarrow> string list" where
  "commonprefix (x # xs) (y # ys) = (if x = y then x # commonprefix xs ys else [])"
| "commonprefix xs ys = []"

definition os_path_relpath :: "filesys \<Rightarrow> path \<Rightarrow> string \<Rightarrow> string \<Rightarrow> error + string" where
  "os_path_relpath fs cwd p start =
     (if p = [] then Inl ValueError
      else case os_path_abspath fs cwd start of
        Inl e \<Rightarrow> Inl e
      | Inr astart \<Rightarrow>
         (case os_path_abspath fs cwd p of
            Inl e \<Rightarrow> Inl e
          | Inr apath \<Rightarrow>
              (let start_list = comps astart;
                   path_list = comps apath;
                   i = length (commonprefix start_list path_list);
                   rel_list = replicate (length start_list - i) ''..'' @ drop i path_list
               in if rel_list = [] then Inr ''.''
                  else Inr (os_path_join (hd rel_list) (tl rel_list)))))"

definition write_card :: "filesys \<Rightarrow> path \<Rightarrow> string \<Rightarrow> string \<Rightarrow> string \<Rightarrow> fsres" where
  "write_card fs cwd blob_path tree_path data =
     (case os_path_relpath fs cwd blob_path (os_path_dirname tree_path) of
        Inl e \<Rightarrow> Inl (e, fs)
      | Inr rel_path \<Rightarrow>
          (case open_write fs cwd blob_path data of
             Inl x \<Rightarrow> Inl x
           | Inr fs1 \<Rightarrow> os_symlink fs1 cwd rel_path tree_path))"


text \<open>Predicates used to state the theorems about paths.\<close>

definition sanitize :: "string \<Rightarrow> string" where
  "sanitize f = str_replace CHR '' '' CHR ''_'' (str_replace CHR ''/'' CHR ''-'' f)"

definition is_name :: "string \<Rightarrow> bool" where
  "is_name c \<longleftrightarrow> c \<noteq> [] \<and> c \<noteq> ''.'' \<and> c \<noteq> ''..'' \<and> CHR ''/'' \<notin> set c"

definition names :: "string list \<Rightarrow> bool" where
  "names cs \<longleftrightarrow> list_all is_name cs"

definition nfold :: "string list \<Rightarrow> string list" where
  "nfold parts = foldl (norm_step (Suc 0)) [] parts"

definition join_prefix :: "string \<Rightarrow> string" where
  "join_prefix q = (if q = [] \<or> last q = CHR ''/'' then q else q @ ''/'')"

definition base_dir :: "path \<Rightarrow> string \<Rightarrow> path" where
  "base_dir cwd s = (if isabs s then [] else cwd)"

text \<open>
  The three ways in which \<open>write_card\<close> can fail on the file system: the blob cannot be
  opened for writing (a directory on its path is missing or is no directory, or the blob
  path names a directory), the directory of the link cannot be reached, or an entry of
  any kind already exists at the link path.
\<close>

definition blob_unwritable :: "filesys \<Rightarrow> path \<Rightarrow> string \<Rightarrow> bool" where
  "blob_unwritable fs cwd s =
     (case namei fs cwd True s of Inl e \<Rightarrow> True | Inr p \<Rightarrow> node_at fs p = Some Dir)"

definition parent_missing :: "filesys \<Rightarrow> path \<Rightarrow> string \<Rightarrow> bool" where
  "parent_missing fs cwd s = (case namei fs cwd False s of Inl e \<Rightarrow> True | Inr q \<Rightarrow> False)"

definition entry_exists :: "filesys \<Rightarrow> path \<Rightarrow> string \<Rightarrow> bool" where
  "entry_exists fs cwd s =
     (case namei fs cwd False s of Inl e \<Rightarrow> False | Inr q \<Rightarrow> node_at fs q \<noteq> None)"


section \<open>The orchestrator\<close>

fun show_nat :: "nat \<Rightarrow> string" where
  "show_nat n =
     (if n < 10 then [char_of (48 + n)]
      else show_nat (n div 10) @ [char_of (48 + n mod 10)])"

declare show_nat.simps [simp del]

definition show_int :: "int \<Rightarrow> string" where
  "show_int i = (if i < 0 then ''-'' @ show_nat (nat (- i)) else show_nat (nat i))"

record trello_list =
  tl_id :: string
  tl_name :: string
  tl_cards :: "card list"

record board =
  b_id :: string
  b_name :: string
  b_closed_cards :: "card list"
  b_lists :: "trello_list list"

record lib =
  safe_dump :: "store \<Rightarrow> pydict \<Rightarrow> string"
  render_txt :: "store \<Rightarrow> pydict \<Rightarrow> error + string"

record world =
  w_fs :: filesys
  w_cwd :: path
  w_store :: store
  w_git :: "string list list"

definition dump_yaml ::
  "lib \<Rightarrow> string \<Rightarrow> store \<Rightarrow> filesys \<Rightarrow> path \<Rightarrow> pydict \<Rightarrow> string \<Rightarrow> fsres" where
  "dump_yaml L root st fs cwd card_data tree_path =
     (case map_of card_data ''id'' of
        None \<Rightarrow> Inl (KeyError ''id'', fs)
      | Some (PStr i) \<Rightarrow>
          write_card fs cwd (normpath root [''raw_tickets'', i] @ ''.yaml'')
            (tree_path @ ''.yaml'') (safe_dump L st card_data)
      | Some v \<Rightarrow> Inl (TypeError, fs))"

definition dump_txt ::
  "lib \<Rightarrow> string \<Rightarrow> store \<Rightarrow> filesys \<Rightarrow> path \<Rightarrow> pydict \<Rightarrow> string \<Rightarrow> fsres" where
  "dump_txt L root st fs cwd card_data tree_path =
     (case render_txt L st card_data of
        Inl e \<Rightarrow> Inl (e, fs)
      | Inr txt \<Rightarrow>
          (case map_of card_data ''id'' of
             None \<Rightarrow> Inl (KeyError ''id'', fs)
           | Some (PStr i) \<Rightarrow>
               write_card fs cwd (normpath root [''raw_tickets'', i] @ ''.txt'')
                 (tree_path @ ''.txt'') txt
           | Some v \<Rightarrow> Inl (TypeError, fs)))"

definition dl_card :: "lib \<Rightarrow> string \<Rightarrow> world \<Rightarrow> card \<Rightarrow> string \<Rightarrow> error + world" where
  "dl_card L root w c tree_path =
     (case dl_card_data (w_store w) c of
        Inl e \<Rightarrow> Inl e
      | Inr (st, card_data) \<Rightarrow>
          (case dump_yaml L root st (w_fs w) (w_cwd w) card_data tree_path of
             Inl (e, fs') \<Rightarrow> Inl e
           | Inr fs1 \<Rightarrow>
               (case dump_txt L root st fs1 (w_cwd w) card_data tree_path of
                  Inl (e, fs') \<Rightarrow> Inl e
                | Inr fs2 \<Rightarrow> Inr (w\<lparr>w_store := st, w_fs := fs2\<rparr>))))"

definition card_filename :: "card \<Rightarrow> string" where
  "card_filename c = show_int (short_id c) @ ''_'' @ card_name c"

fun dl_cards :: "lib \<Rightarrow> string \<Rightarrow> world \<Rightarrow> string list \<Rightarrow> card list \<Rightarrow> error + world" where
  "dl_cards L root w dir [] = Inr w"
| "dl_cards L root w dir (c # cs) =
     (case dl_card L root w c (normpath root (dir @ [card_filename c])) of
        Inl e \<Rightarrow> Inl e
      | Inr w' \<Rightarrow> dl_cards L root w' dir cs)"

fun retrieve_lists ::
  "lib \<Rightarrow> string \<Rightarrow> world \<Rightarrow> string \<Rightarrow> trello_list list \<Rightarrow> error + world" where
  "retrieve_lists L root w board_dirname [] = Inr w"
| "retrieve_lists L root w board_dirname (l # ls) =
     (let list_name_path = tl_id l @ ''_'' @ tl_name l
      in case mkdir root (w_fs w) (w_cwd w) [''current'', board_dirname, list_name_path] of
           Inl (e, fs') \<Rightarrow> Inl e
         | Inr fs1 \<Rightarrow>
             (case dl_cards L root (w\<lparr>w_fs := fs1\<rparr>)
                     [''current'', board_dirname, list_name_path] (tl_cards l) of
                Inl e \<Rightarrow> Inl e
              | Inr w' \<Rightarrow> retrieve_lists L root w' board_dirname ls))"

definition retrieve_closed ::
  "lib \<Rightarrow> string \<Rightarrow> world \<Rightarrow> string \<Rightarrow> card list \<Rightarrow> error + world" where
  "retrieve_closed L root w board_dirname closed_cards =
     (if closed_cards \<noteq> [] then
        (case wipe_dir root (w_fs w) (w_cwd w) [''current'', board_dirname, ''archives''] of
           Inl (e, fs') \<Rightarrow> Inl e
         | Inr fs1 \<Rightarrow>
             dl_cards L root (w\<lparr>w_fs := fs1\<rparr>)
               [''current'', board_dirname, ''archives''] closed_cards)
      else Inr w)"

definition retrieve_board :: "lib \<Rightarrow> string \<Rightarrow> world \<Rightarrow> board \<Rightarrow> error + world" where
  "retrieve_board L root w b =
     (if b_name b = ''Welcome Board'' then Inr w
      else
        (let board_dirname = b_id b @ ''_'' @ b_name b
         in case wipe_dir root (w_fs w) (w_cwd w) [''current'', board_dirname] of
              Inl (e, fs') \<Rightarrow> Inl e
            | Inr fs1 \<Rightarrow>
                (case retrieve_closed L root (w\<lparr>w_fs := fs1\<rparr>) board_dirname
                        (b_closed_cards b) of
                   Inl e \<Rightarrow> Inl e
                 | Inr w' \<Rightarrow> retrieve_lists L root w' board_dirname (b_lists b))))"

fun retrieve_trello_data :: "lib \<Rightarrow> string \<Rightarrow> world \<Rightarrow> board list \<Rightarrow> error + world" where
  "retrieve_trello_data L root w [] = Inr w"
| "retrieve_trello_data L root w (b # bs) =
     (case retrieve_board L root w b of
        Inl e \<Rightarrow> Inl e
      | Inr w' \<Rightarrow> retrieve_trello_data L root w' bs)"


section \<open>Listing files and the git step\<close>

definition listdir :: "filesys \<Rightarrow> path \<Rightarrow> string list" where
  "listdir fs p = remdups (map (\<lambda>(q, n). last q) (filter (\<lambda>(q, n). q \<noteq> [] \<and> butlast q = p) fs))"

definition isdir_at :: "filesys \<Rightarrow> path \<Rightarrow> string \<Rightarrow> bool" where
  "isdir_at fs p name =
     (case resolve MAXSYMLINKS fs True p [name] of Inl e \<Rightarrow> False | Inr q \<Rightarrow> is_dir fs q)"

definition islink_at :: "filesys \<Rightarrow> path \<Rightarrow> string \<Rightarrow> bool" where
  "islink_at fs p name = (case node_at fs (p @ [name]) of Some (Link t) \<Rightarrow> True | _ \<Rightarrow> False)"

function os_walk :: "filesys \<Rightarrow> string \<Rightarrow> path \<Rightarrow> (string \<times> string list \<times> string list) list" where
  "os_walk fs topdir p =
     (topdir, filter (isdir_at fs p) (listdir fs p),
           filter (\<lambda>name. \<not> isdir_at fs p name) (listdir fs p)) #
     concat (map (\<lambda>name. if \<not> islink_at fs p name \<and> node_at fs (p @ [name]) \<noteq> None
                          then os_walk fs (join_step topdir name) (p @ [name]) else [])
               (filter (isdir_at fs p) (listdir fs p)))"
  by pat_completeness auto
termination
proof (relation "measure (\<lambda>(fs, topdir, p). length (filter (\<lambda>(q, n). strict_prefix p q) fs))")
  show "wf (measure (\<lambda>(fs, topdir, p). length (filter (\<lambda>(q, n). strict_prefix p q) fs)))"
    by simp
next
  fix fs :: filesys and topdir :: string and p :: path and name :: string
  assume "\<not> islink_at fs p name \<and> node_at fs (p @ [name]) \<noteq> None"
  then obtain n where "map_of fs (p @ [name]) = Some n"
    by (auto simp: node_at_def)
  then have mem: "(p @ [name], n) \<in> set fs" by (rule map_of_SomeD)
  have less: "length (filter P xs) < length (filter Q xs)"
    if "\<And>x. P x \<Longrightarrow> Q x" "x \<in> set xs" "Q x" "\<not> P x"
    for P Q :: "path \<times> node \<Rightarrow> bool" and xs x
    using that
  proof (induction xs)
    case Nil
    then show ?case by simp
  next
    case (Cons y ys)
    have le: "length (filter P ys) \<le> length (filter Q ys)"
      using Cons.prems(1) by (induction ys) auto
    show ?case
    proof (cases "x = y")
      case True
      with Cons.prems le show ?thesis by simp
    next
      case False
      with Cons.prems have "x \<in> set ys" by simp
      from Cons.IH [OF Cons.prems(1) this Cons.prems(3,4)] Cons.prems(1) [of y]
      show ?thesis by auto
    qed
  qed
  have "length (filter (\<lambda>(q, n). strict_prefix (p @ [name]) q) fs)
      < length (filter (\<lambda>(q, n). strict_prefix p q) fs)"
    by (rule less [OF _ mem]) (auto simp: strict_prefix_def prefix_def)
  then show "((fs, join_step topdir name, p @ [name]), (fs, topdir, p))
      \<in> measure (\<lambda>(fs, topdir, p). length (filter (\<lambda>(q, n). strict_prefix p q) fs))"
    by simp
qed

declare os_walk.simps [simp del]

definition os_walk_top :: "filesys \<Rightarrow> path \<Rightarrow> string \<Rightarrow> (string \<times> string list \<times> string list) list" where
  "os_walk_top fs cwd topdir =
     (case namei fs cwd True topdir of
        Inl e \<Rightarrow> []
      | Inr p \<Rightarrow> if is_dir fs p then os_walk fs topdir p else [])"

definition BLOBS_ROOT :: "filesys \<Rightarrow> path \<Rightarrow> string \<Rightarrow> error + string" where
  "BLOBS_ROOT fs cwd root = os_path_abspath fs cwd (os_path_join root [''raw_tickets''])"

definition TREE_ROOT :: "filesys \<Rightarrow> path \<Rightarrow> string \<Rightarrow> error + string" where
  "TREE_ROOT fs cwd root = os_path_abspath fs cwd (os_path_join root [''current''])"

definition walk_files :: "(string \<times> string list \<times> string list) list \<Rightarrow> string list" where
  "walk_files triples = concat (map (\<lambda>(current, dirs, files). map (join_step current) files) triples)"

definition get_current_files :: "filesys \<Rightarrow> path \<Rightarrow> string \<Rightarrow> string \<Rightarrow> string list" where
  "get_current_files fs cwd blobs_root tree_root =
     walk_files (os_walk_top fs cwd blobs_root) @ walk_files (os_walk_top fs cwd tree_root)"

definition os_chdir :: "filesys \<Rightarrow> path \<Rightarrow> string \<Rightarrow> errno + path" where
  "os_chdir fs cwd s =
     (case namei fs cwd True s of
        Inl e \<Rightarrow> Inl e
      | Inr p \<Rightarrow> if is_dir fs p then Inr p
                 else if node_at fs p = None then Inl ENOENT else Inl ENOTDIR)"

definition git_cmd :: "world \<Rightarrow> string list \<Rightarrow> world" where
  "git_cmd w args = w\<lparr>w_git := w_git w @ [''git'' # args]\<rparr>"

definition git_commit :: "string \<Rightarrow> world \<Rightarrow> world" where
  "git_commit now w = git_cmd (git_cmd w [''add'', ''.'']) [''commit'', ''-m'', ''backup - '' @ now]"

definition git_push :: "world \<Rightarrow> world" where
  "git_push w = git_cmd w [''push'', ''origin'', ''master'']"

definition git_rm_stale :: "string list \<Rightarrow> world \<Rightarrow> string \<Rightarrow> world" where
  "git_rm_stale current_files w old_file =
     (if old_file \<notin> set current_files then git_cmd w [''rm'', old_file] else w)"

definition gitit ::
  "string \<Rightarrow> string \<Rightarrow> string \<Rightarrow> world \<Rightarrow> string \<Rightarrow> string list \<Rightarrow> error + world" where
  "gitit blobs_root tree_root now w repo_path prev_files =
     (case os_getcwd (w_fs w) (w_cwd w) of
        Inl e \<Rightarrow> Inl (OSError e)
      | Inr old_dir \<Rightarrow>
          (case os_chdir (w_fs w) (w_cwd w) repo_path of
             Inl e \<Rightarrow> Inl (OSError e)
           | Inr d \<Rightarrow>
               (let w1 = w\<lparr>w_cwd := d\<rparr>;
                    current_files = get_current_files (w_fs w1) (w_cwd w1) blobs_root tree_root;
                    w2 = foldl (git_rm_stale current_files) w1 prev_files;
                    w3 = git_push (git_commit now w2)
                in case os_chdir (w_fs w3) (w_cwd w3) old_dir of
                     Inl e \<Rightarrow> Inl (OSError e)
                   | Inr d' \<Rightarrow> Inr (w3\<lparr>w_cwd := d'\<rparr>))))"


section \<open>Example data\<close>

definition fs_a :: filesys where
  "fs_a = [([''r''], Dir), ([''r'', ''raw_tickets''], Dir), ([''r'', ''current''], Dir),
          ([''r'', ''current'', ''b''], Dir)]"

definition fs_b :: filesys where
  "fs_b = [([''r''], Dir), ([''r'', ''raw_tickets''], Dir), ([''r'', ''current''], Dir),
          ([''r'', ''current'', ''b''], Dir),
          ([''r'', ''raw_tickets'', ''c1.yaml''], File ''data''),
          ([''r'', ''current'', ''b'', ''1_x.yaml''], Link ''../../raw_tickets/c1.yaml'')]"

definition lib0 :: lib where
  "lib0 = \<lparr>safe_dump = (\<lambda>st d. ''yaml''), render_txt = (\<lambda>st d. Inr ''txt'')\<rparr>"

definition card1 :: card where
  "card1 = \<lparr>card_id = ''c1'', card_name = ''Fix it'', description = PStr ''d'', closed = PBool False,
     url = PStr ''u'', member_ids = PList [], short_id = 1, board_id = PStr ''5'',
     list_id = PStr ''7'', labels = PList [], badges = PNone, due = PNone, checked = PNone,
     comments = [], checklists = []\<rparr>"

definition board_paren :: board where
  "board_paren = \<lparr>b_id = ''5'', b_name = ''Sales (EU)'', b_closed_cards = [],
      b_lists = [\<lparr>tl_id = ''7'', tl_name = ''Todo'', tl_cards = [card1]\<rparr>]\<rparr>"

definition fs_paren :: filesys where
  "fs_paren =
     [([''r''], Dir), ([''r'', ''raw_tickets''], Dir), ([''r'', ''current''], Dir),
      ([''r'', ''current'', ''5_Sales_(EU)''], Dir),
      ([''r'', ''current'', ''5_Sales_(EU)'', ''7_Todo''], Dir),
      ([''r'', ''raw_tickets'', ''c1.yaml''], File ''yaml''),
      ([''r'', ''current'', ''5_Sales_(EU)'', ''7_Todo'', ''1_Fix_it.yaml''],
       Link ''../../../raw_tickets/c1.yaml''),
      ([''r'', ''raw_tickets'', ''c1.txt''], File ''txt''),
      ([''r'', ''current'', ''5_Sales_(EU)'', ''7_Todo'', ''1_Fix_it.txt''],
       Link ''../../../raw_tickets/c1.txt'')]"

definition board_tab :: board where
  "board_tab = \<lparr>b_id = ''5'', b_name = ''x'' @ [CHR 0x09] @ ''results'', b_closed_cards = [],
      b_lists = []\<rparr>"

definition fs_tab :: filesys where
  "fs_tab =
     [([''home''], Dir), ([''home'', ''results''], Dir),
      ([''home'', ''results'', ''raw_tickets''], Dir),
      ([''home'', ''results'', ''raw_tickets'', ''c1.yaml''], File ''yaml''),
      ([''home'', ''results'', ''current''], Dir),
      ([''home'', ''results'', ''current'', ''5_x'' @ [CHR 0x09] @ ''results''], Dir)]"

definition fs_tab_after :: filesys where
  "fs_tab_after =
     [([''home''], Dir), ([''home'', ''results''], Dir),
      ([''home'', ''results'', ''current''], Dir),
      ([''home'', ''results'', ''current'', ''5_x'' @ [CHR 0x09] @ ''results''], Dir)]"

definition fs_noblobdir :: filesys where
  "fs_noblobdir = [([''r''], Dir), ([''r'', ''current''], Dir), ([''r'', ''current'', ''b''], Dir)]"


section \<open>The path normalizer\<close>

lemma str_replace_append: "str_replace a b (xs @ ys) = str_replace a b xs @ str_replace a b ys"
  by (simp add: str_replace_def)

lemma str_replace_absent: "a \<noteq> b \<Longrightarrow> a \<notin> set (str_replace a b s)"
  by (auto simp: str_replace_def)

lemma length_str_replace: "length (str_replace a b s) = length s"
  by (simp add: str_replace_def)

lemma str_replace_fixed: "a \<notin> set s \<Longrightarrow> str_replace a b s = s"
  by (induction s) (auto simp: str_replace_def)

lemma str_replace_changes: "a \<in> set s \<Longrightarrow> a \<noteq> b \<Longrightarrow> str_replace a b s \<noteq> s"
  using str_replace_absent [of a b s] by auto

lemma join_relative:
  assumes "\<forall>b \<in> set bs. CHR ''/'' \<notin> set b"
  shows "\<exists>seps. length seps = length bs \<and> set seps \<subseteq> {[], ''/''} \<and>
           foldl join_step a bs = a @ concat (map2 (@) seps bs)"
  using assms
proof (induction bs arbitrary: a)
  case Nil
  then show ?case by simp
next
  case (Cons b bs)
  from Cons.prems have nb: "\<not> (b \<noteq> [] \<and> hd b = CHR ''/'')"
    by (cases b) auto
  define s where "s = (if a = [] \<or> last a = CHR ''/'' then [] else ''/'')"
  have step: "join_step a b = a @ s @ b"
    using nb by (auto simp: join_step_def s_def)
  from Cons.prems have "\<forall>b \<in> set bs. CHR ''/'' \<notin> set b" by simp
  from Cons.IH [OF this, of "a @ s @ b"]
  obtain seps where seps: "length seps = length bs" "set seps \<subseteq> {[], ''/''}"
    "foldl join_step (a @ s @ b) bs = (a @ s @ b) @ concat (map2 (@) seps bs)"
    by blast
  have "length (s # seps) = length (b # bs)" using seps by simp
  moreover have "set (s # seps) \<subseteq> {[], ''/''}" using seps by (auto simp: s_def)
  moreover have "foldl join_step a (b # bs) = a @ concat (map2 (@) (s # seps) (b # bs))"
    using seps step by simp
  ultimately show ?case by blast
qed

lemma str_replace_concat_map2:
  "length seps = length fs \<Longrightarrow> set seps \<subseteq> {[], ''/''} \<Longrightarrow>
   str_replace CHR '' '' CHR ''_'' (concat (map2 (@) seps (map g fs))) =
   concat (map2 (\<lambda>s f. s @ str_replace CHR '' '' CHR ''_'' (g f)) seps fs)"
proof (induction seps fs rule: list_induct2)
  case Nil
  then show ?case by (simp add: str_replace_def)
next
  case (Cons s seps f fs)
  then have "s = [] \<or> s = ''/''" by auto
  then have "str_replace CHR '' '' CHR ''_'' s = s" by (auto simp: str_replace_def)
  with Cons show ?case by (simp add: str_replace_append)
qed

lemma normpath_decompose:
  "\<exists>seps. length seps = length fragments \<and> set seps \<subseteq> {[], ''/''} \<and>
     normpath root fragments =
       str_replace CHR '' '' CHR ''_'' root @
       concat (map2 (\<lambda>s f. s @ str_replace CHR '' '' CHR ''_'' (str_replace CHR ''/'' CHR ''-'' f))
                 seps fragments)"
proof -
  let ?sl = "str_replace CHR ''/'' CHR ''-''"
  have "\<forall>b \<in> set (map ?sl fragments). CHR ''/'' \<notin> set b"
    by (simp add: str_replace_absent)
  from join_relative [OF this, of root]
  obtain seps where seps: "length seps = length fragments" "set seps \<subseteq> {[], ''/''}"
    "foldl join_step root (map ?sl fragments) = root @ concat (map2 (@) seps (map ?sl fragments))"
    by auto
  have "normpath root fragments =
        str_replace CHR '' '' CHR ''_'' root @
        str_replace CHR '' '' CHR ''_'' (concat (map2 (@) seps (map ?sl fragments)))"
    using seps(3) by (simp add: normpath_def os_path_join_def str_replace_append)
  with seps(1,2) show ?thesis
    using str_replace_concat_map2 [OF seps(1,2), of ?sl] by auto
qed

text \<open>
  Claim C3.  For every configured root and every sequence of fragments, the produced path
  is the root (spaces rewritten) followed, fragment by fragment, by a separator that is
  either empty or a single slash and the fragment with each slash replaced by a dash and
  each space by an underscore; a fragment rewritten this way contains no slash, so the
  only slashes after the root are the separators of the join; and the produced path
  contains no space.  The path is a function of the root and the fragments alone.
\<close>

theorem normpath_contract:
  "CHR '' '' \<notin> set (normpath root fragments) \<and>
   (\<exists>seps. length seps = length fragments \<and> set seps \<subseteq> {[], ''/''} \<and>
      normpath root fragments =
        str_replace CHR '' '' CHR ''_'' root @
        concat (map2 (\<lambda>s f. s @ str_replace CHR '' '' CHR ''_'' (str_replace CHR ''/'' CHR ''-'' f))
                  seps fragments)) \<and>
   (\<forall>f. CHR ''/'' \<notin> set (str_replace CHR '' '' CHR ''_'' (str_replace CHR ''/'' CHR ''-'' f)))"
proof -
  have "CHR '' '' \<notin> set (normpath root fragments)"
    by (simp add: normpath_def str_replace_absent)
  moreover have "\<forall>f. CHR ''/'' \<notin> set (str_replace CHR '' '' CHR ''_'' (str_replace CHR ''/'' CHR ''-'' f))"
    by (auto simp: str_replace_def)
  ultimately show ?thesis using normpath_decompose [of fragments root] by blast
qed

text \<open>
  Claim C10.  The space-to-underscore substitution is applied to the whole joined path,
  the configured root included: the produced path starts with the rewritten root, and
  whenever the configured root contains a space the produced path does not start with the
  configured root.
\<close>

theorem normpath_rewrites_root:
  "prefix (str_replace CHR '' '' CHR ''_'' root) (normpath root fragments) \<and>
   (CHR '' '' \<in> set root \<longrightarrow> \<not> prefix root (normpath root fragments))"
proof -
  let ?r = "str_replace CHR '' '' CHR ''_'' root"
  from normpath_decompose [of fragments root]
  obtain rest where rest: "normpath root fragments = ?r @ rest" by blast
  then have p: "prefix ?r (normpath root fragments)" by simp
  have "\<not> prefix root (normpath root fragments)" if sp: "CHR '' '' \<in> set root"
  proof
    assume "prefix root (normpath root fragments)"
    then obtain rest' where "?r @ rest = root @ rest'"
      using rest by (auto simp: prefix_def)
    then have "?r = root" by (simp add: length_str_replace)
    with str_replace_changes [OF sp, of "CHR ''_''"] show False by simp
  qed
  with p show ?thesis by blast
qed

theorem normpath_rewrites_root_witness:
  "CHR '' '' \<in> set ''my backup'' \<and>
   \<not> prefix ''my backup'' (normpath ''my backup'' [''current'', ''b 1''])"
  using normpath_rewrites_root [of "''my backup''" "[''current'', ''b 1'']"] by simp


lemma keys_delete: "keys (AList.delete k d) = keys d - {k}"
  by (induction d) (auto simp: keys_def)

lemma keys_update: "keys (AList.update k v d) = insert k (keys d)"
  by (simp add: keys_def dom_update)

lemma keys_map_of: "k \<in> keys d \<longleftrightarrow> map_of d k \<noteq> None"
  by (simp add: keys_def map_of_eq_None_iff)

lemma del_item_Inr:
  "del_item st obj k = Inr st' \<longleftrightarrow>
     (\<exists>a. obj = PDict a \<and> a < length st \<and> k \<in> keys (st ! a) \<and>
          st' = st[a := AList.delete k (st ! a)])"
  by (cases obj) (auto simp: del_item_def)

lemma del_items_author:
  assumes "del_items st obj [''avatarHash'', ''fullName'', ''initials''] = Inr st'"
  shows "\<exists>m. obj = PDict m \<and> m < length st \<and> ''avatarHash'' \<in> keys (st ! m) \<and>
             st' = st[m := redact_author (st ! m)]"
proof -
  from assms obtain s1 s2 where
    1: "del_item st obj ''avatarHash'' = Inr s1" and
    2: "del_item s1 obj ''fullName'' = Inr s2" and
    3: "del_item s2 obj ''initials'' = Inr st'"
    by (auto split: sum.splits)
  from 1 obtain m where m: "obj = PDict m" "m < length st" "''avatarHash'' \<in> keys (st ! m)"
    "s1 = st[m := AList.delete ''avatarHash'' (st ! m)]"
    by (auto simp: del_item_Inr)
  from 2 m have s2: "s2 = st[m := AList.delete ''fullName'' (AList.delete ''avatarHash'' (st ! m))]"
    by (auto simp: del_item_Inr)
  from 3 m s2 have "st' = st[m := redact_author (st ! m)]"
    by (auto simp: del_item_Inr redact_author_def)
  with m show ?thesis by blast
qed

text \<open>The effect of one iteration of the comment loop.\<close>

lemma redact_comment_effect:
  assumes "redact_comment st c = Inr st'"
  shows "\<exists>a. c = PDict a \<and> a < length st \<and> ''idMemberCreator'' \<in> keys (st ! a) \<and>
        ((\<exists>m. map_of (st ! a) ''memberCreator'' = Some (PDict m) \<and> m < length st \<and>
              truthy (st[a := AList.delete ''idMemberCreator'' (st ! a)]) (PDict m) = Some True \<and>
              ''avatarHash'' \<in> keys (st[a := AList.delete ''idMemberCreator'' (st ! a)] ! m) \<and>
              st' = (st[a := AList.delete ''idMemberCreator'' (st ! a)])
                      [m := redact_author (st[a := AList.delete ''idMemberCreator'' (st ! a)] ! m)])
        \<or> (truthy (st[a := AList.delete ''idMemberCreator'' (st ! a)])
               (dict_get (st ! a) ''memberCreator'') = Some False \<and>
            st' = (st[a := AList.delete ''idMemberCreator'' (st ! a)] @ [sentinel])
                    [a := AList.update ''memberCreator'' (PDict (length st))
                            (AList.delete ''idMemberCreator'' (st ! a))]))"
proof -
  from assms obtain a where c: "c = PDict a" by (cases c) auto
  from assms c obtain st1 where d: "del_item st (PDict a) ''idMemberCreator'' = Inr st1"
    by (auto split: sum.splits)
  then have a: "a < length st" "''idMemberCreator'' \<in> keys (st ! a)"
    and st1: "st1 = st[a := AList.delete ''idMemberCreator'' (st ! a)]"
    by (auto simp: del_item_Inr)
  let ?mi = "dict_get (st1 ! a) ''memberCreator''"
  have mi: "?mi = dict_get (st ! a) ''memberCreator''"
    using a st1 by (simp add: dict_get_def)
  consider (t) "truthy st1 ?mi = Some True" | (f) "truthy st1 ?mi = Some False"
    | (n) "truthy st1 ?mi = None"
    by (cases "truthy st1 ?mi") auto
  then show ?thesis
  proof cases
    case t
    with assms c d have "del_items st1 ?mi [''avatarHash'', ''fullName'', ''initials''] = Inr st'"
      by (simp add: Let_def)
    from del_items_author [OF this] obtain m where
      m: "?mi = PDict m" "m < length st1" "''avatarHash'' \<in> keys (st1 ! m)"
         "st' = st1[m := redact_author (st1 ! m)]"
      by blast
    from m(1) mi have "map_of (st ! a) ''memberCreator'' = Some (PDict m)"
      by (auto simp: dict_get_def split: option.splits)
    with a c m t st1 show ?thesis by auto
  next
    case f
    with assms c d have "st' = (st1 @ [sentinel])
             [a := AList.update ''memberCreator'' (PDict (length st1)) (st1 ! a)]"
      by (simp add: Let_def)
    with a c f st1 mi show ?thesis by auto
  next
    case n
    with assms c d show ?thesis by (simp add: Let_def)
  qed
qed

lemma redact_comment_cases [consumes 1, case_names author sentinel]:
  assumes "redact_comment st c = Inr st'"
  obtains
    (author) a m where "c = PDict a" "a < length st" "''idMemberCreator'' \<in> keys (st ! a)"
      "map_of (st ! a) ''memberCreator'' = Some (PDict m)" "m < length st"
      "truthy (st[a := AList.delete ''idMemberCreator'' (st ! a)]) (PDict m) = Some True"
      "''avatarHash'' \<in> keys (st[a := AList.delete ''idMemberCreator'' (st ! a)] ! m)"
      "st' = (st[a := AList.delete ''idMemberCreator'' (st ! a)])
               [m := redact_author (st[a := AList.delete ''idMemberCreator'' (st ! a)] ! m)]"
  | (sentinel) a where "c = PDict a" "a < length st" "''idMemberCreator'' \<in> keys (st ! a)"
      "truthy (st[a := AList.delete ''idMemberCreator'' (st ! a)])
         (dict_get (st ! a) ''memberCreator'') = Some False"
      "st' = (st[a := AList.delete ''idMemberCreator'' (st ! a)] @ [sentinel])
               [a := AList.update ''memberCreator'' (PDict (length st))
                       (AList.delete ''idMemberCreator'' (st ! a))]"
  using redact_comment_effect [OF assms] by blast

lemma stable_refl: "stable st st"
  by (auto simp: stable_def)

lemma stable_trans:
  assumes "stable s1 s2" "stable s2 s3"
  shows "stable s1 s3"
  unfolding stable_def
proof (intro conjI allI impI)
  show "length s1 \<le> length s3" using assms by (simp add: stable_def)
next
  fix a assume a: "a < length s1"
  then have a2: "a < length s2" using assms(1) by (simp add: stable_def)
  note A = assms(1) [unfolded stable_def, THEN conjunct2, rule_format, OF a]
  note B = assms(2) [unfolded stable_def, THEN conjunct2, rule_format, OF a2]
  show "keys (s3 ! a) \<subseteq> insert ''memberCreator'' (keys (s1 ! a))"
    using A B by blast
  show "map_of (s3 ! a) ''memberCreator'' = map_of (s1 ! a) ''memberCreator''"
    if "''idMemberCreator'' \<in> keys (s3 ! a)"
  proof -
    from that B have "''idMemberCreator'' \<in> keys (s2 ! a)" by auto
    with that A B show ?thesis by simp
  qed
  show "map_of (s3 ! a) ''memberCreator'' = map_of (s1 ! a) ''memberCreator''"
    if "''idMemberCreator'' \<notin> keys (s1 ! a)"
  proof -
    from that A have "''idMemberCreator'' \<notin> keys (s2 ! a)" by auto
    with that A B show ?thesis by simp
  qed
  show "s3 ! a = s1 ! a"
    if "''idMemberCreator'' \<notin> keys (s1 ! a) \<and> ''avatarHash'' \<notin> keys (s1 ! a)"
    using that A B by simp
qed

lemma keys_redact_author: "keys (redact_author d) = keys d - {''avatarHash'', ''fullName'', ''initials''}"
  by (auto simp: redact_author_def keys_delete)

lemma map_of_redact_author [simp]:
  "map_of (redact_author d) ''memberCreator'' = map_of d ''memberCreator''"
  by (simp add: redact_author_def)

lemma redact_comment_stable:
  assumes "redact_comment st c = Inr st'"
  shows "stable st st'"
  using assms
proof (cases rule: redact_comment_cases)
  case (author a m)
  show ?thesis
    unfolding stable_def author(8) using author(2,3,5,7)
    by (auto simp: nth_list_update keys_redact_author keys_delete)
next
  case (sentinel a)
  show ?thesis
    unfolding stable_def sentinel(5) using sentinel(2,3)
    by (auto simp: nth_list_update nth_append keys_update keys_delete)
qed

lemma dl_card_comments_stable:
  "dl_card_comments st cs = Inr st' \<Longrightarrow> stable st st'"
proof (induction cs arbitrary: st)
  case Nil
  then show ?case by (simp add: stable_refl)
next
  case (Cons c cs)
  then obtain s1 where s1: "redact_comment st c = Inr s1" "dl_card_comments s1 cs = Inr st'"
    by (auto split: sum.splits)
  from redact_comment_stable [OF s1(1)] Cons.IH [OF s1(2)] show ?case
    by (rule stable_trans)
qed

lemma keys_sentinel: "keys sentinel = {''username''}"
  by (simp add: sentinel_def keys_def)

lemma truthy_non_dict: "(\<forall>a. v \<noteq> PDict a) \<Longrightarrow> truthy st' v = truthy st v"
  by (cases v) auto

text \<open>A comment that the loop still has to process carries its creator id.\<close>

lemma dl_card_comments_pending:
  "dl_card_comments st cs = Inr st' \<Longrightarrow> PDict a \<in> set cs \<Longrightarrow> a < length st \<Longrightarrow>
   ''idMemberCreator'' \<in> keys (st ! a)"
proof (induction cs arbitrary: st)
  case Nil
  then show ?case by simp
next
  case (Cons c cs)
  then obtain s1 where s1: "redact_comment st c = Inr s1" "dl_card_comments s1 cs = Inr st'"
    by (auto split: sum.splits)
  show ?case
  proof (cases "c = PDict a")
    case True
    with redact_comment_effect [OF s1(1)] show ?thesis by blast
  next
    case False
    with Cons.prems have in_cs: "PDict a \<in> set cs" by simp
    have st: "stable st s1" by (rule redact_comment_stable [OF s1(1)])
    with Cons.prems have "a < length s1" by (simp add: stable_def)
    from Cons.IH [OF s1(2) in_cs this] have "''idMemberCreator'' \<in> keys (s1 ! a)" .
    with st Cons.prems(3) show ?thesis by (auto simp: stable_def)
  qed
qed

lemma dl_card_comments_valid:
  "dl_card_comments st cs = Inr st' \<Longrightarrow> PDict a \<in> set cs \<Longrightarrow> a < length st"
proof (induction cs arbitrary: st)
  case Nil
  then show ?case by simp
next
  case (Cons c cs)
  then obtain s1 where s1: "redact_comment st c = Inr s1" "dl_card_comments s1 cs = Inr st'"
    by (auto split: sum.splits)
  show ?case
  proof (cases "c = PDict a")
    case True
    with redact_comment_effect [OF s1(1)] show ?thesis by blast
  next
    case False
    with Cons.prems have in_cs: "PDict a \<in> set cs" by simp
    from Cons.IH [OF s1(2) in_cs] have a1: "a < length s1" .
    from dl_card_comments_pending [OF s1(2) in_cs a1]
    have pend: "''idMemberCreator'' \<in> keys (s1 ! a)" .
    show ?thesis
    proof (rule ccontr)
      assume na: "\<not> a < length st"
      from s1(1) have "s1 ! a = sentinel"
      proof (cases rule: redact_comment_cases)
        case (author a0 m)
        with a1 na show ?thesis by simp
      next
        case (sentinel a0)
        with a1 na show ?thesis by (simp add: nth_append nth_list_update)
      qed
      with pend show False by (simp add: keys_sentinel)
    qed
  qed
qed

lemma redact_comment_redacted:
  assumes "redact_comment st c = Inr st'"
  shows "redacted st' c"
  using assms
proof (cases rule: redact_comment_cases)
  case (author a m)
  let ?s1 = "st[a := AList.delete ''idMemberCreator'' (st ! a)]"
  have len: "length st' = length st" unfolding author(8) by simp
  have 1: "''idMemberCreator'' \<notin> keys (st' ! a)"
    unfolding author(8) using author(2,5)
    by (simp add: nth_list_update keys_redact_author keys_delete)
  have 2: "map_of (st' ! a) ''memberCreator'' = Some (PDict m)"
    unfolding author(8) using author(2,4,5)
    by (simp add: nth_list_update)
  have 3: "''avatarHash'' \<notin> keys (st' ! m) \<and> ''fullName'' \<notin> keys (st' ! m) \<and>
           ''initials'' \<notin> keys (st' ! m)"
    unfolding author(8) using author(5) by (simp add: keys_redact_author)
  show ?thesis
    unfolding redacted_def using author(1,2,5) len 1 2 3 by auto
next
  case (sentinel a)
  have len: "length st' = Suc (length st)" unfolding sentinel(5) by simp
  have 0: "st' ! a = AList.update ''memberCreator'' (PDict (length st))
                       (AList.delete ''idMemberCreator'' (st ! a))"
    unfolding sentinel(5) using sentinel(2) by (simp add: nth_append)
  have 1: "''idMemberCreator'' \<notin> keys (st' ! a)"
    unfolding 0 by (simp add: keys_update keys_delete)
  have 2: "map_of (st' ! a) ''memberCreator'' = Some (PDict (length st))"
    unfolding 0 by (simp add: update_conv')
  have 3: "st' ! length st = sentinel"
    unfolding sentinel(5) using sentinel(2) by (simp add: nth_append)
  show ?thesis
    unfolding redacted_def using sentinel(1,2) len 1 2 3 by (auto simp: keys_sentinel)
qed

lemma redacted_stable: "redacted st c \<Longrightarrow> stable st st' \<Longrightarrow> redacted st' c"
  unfolding redacted_def stable_def
  apply (elim exE conjE)
  subgoal for a m
    apply (rule exI [of _ a], rule exI [of _ m])
    apply (frule spec [of _ a], drule spec [of _ m])
    apply auto
    done
  done

lemma has_sentinel_stable:
  assumes "has_sentinel st c" "stable st st'"
  shows "has_sentinel st' c"
proof -
  from assms(1) obtain a m where am: "c = PDict a" "a < length st"
    "''idMemberCreator'' \<notin> keys (st ! a)"
    "map_of (st ! a) ''memberCreator'' = Some (PDict m)" "m < length st" "st ! m = sentinel"
    unfolding has_sentinel_def by blast
  note A = assms(2) [unfolded stable_def, THEN conjunct2, rule_format, OF am(2)]
  note M = assms(2) [unfolded stable_def, THEN conjunct2, rule_format, OF am(5)]
  have len: "length st \<le> length st'" using assms(2) by (simp add: stable_def)
  have 1: "''idMemberCreator'' \<notin> keys (st' ! a)" using A am(3) by auto
  have 2: "map_of (st' ! a) ''memberCreator'' = Some (PDict m)" using A am(3,4) by simp
  have "''idMemberCreator'' \<notin> keys (st ! m) \<and> ''avatarHash'' \<notin> keys (st ! m)"
    unfolding am(6) by (simp add: keys_sentinel)
  with M have 3: "st' ! m = sentinel" using am(6) by simp
  show ?thesis
    unfolding has_sentinel_def using am(1,2,5) len 1 2 3 by auto
qed

lemma redact_comment_sentinel:
  assumes "redact_comment st c = Inr st'" "author_absent st c"
  shows "has_sentinel st' c"
  using assms(1)
proof (cases rule: redact_comment_cases)
  case (author a m)
  from assms(2) author(1,4) have "truthy st (PDict m) = Some False"
    by (simp add: author_absent_def dict_get_def)
  with author(5) have e: "st ! m = []" by simp
  with author(3) have "m \<noteq> a" by (auto simp: keys_def)
  with author(5,6) e have False by simp
  then show ?thesis ..
next
  case (sentinel a)
  have len: "length st' = Suc (length st)" unfolding sentinel(5) by simp
  have 0: "st' ! a = AList.update ''memberCreator'' (PDict (length st))
                       (AList.delete ''idMemberCreator'' (st ! a))"
    unfolding sentinel(5) using sentinel(2) by (simp add: nth_append)
  have 1: "''idMemberCreator'' \<notin> keys (st' ! a)"
    unfolding 0 by (simp add: keys_update keys_delete)
  have 2: "map_of (st' ! a) ''memberCreator'' = Some (PDict (length st))"
    unfolding 0 by (simp add: update_conv')
  have 3: "st' ! length st = sentinel"
    unfolding sentinel(5) using sentinel(2) by (simp add: nth_append)
  show ?thesis
    unfolding has_sentinel_def using sentinel(1,2) len 1 2 3 by auto
qed

lemma author_absent_later:
  assumes abs: "author_absent st c'" and c': "c' \<in> set cs"
    and step: "redact_comment st c = Inr s1" and rest: "dl_card_comments s1 cs = Inr st'"
  shows "author_absent s1 c'"
proof -
  from abs obtain a where a: "c' = PDict a" "a < length st"
    and f: "truthy st (dict_get (st ! a) ''memberCreator'') = Some False"
    by (auto simp: author_absent_def)
  have st: "stable st s1" by (rule redact_comment_stable [OF step])
  with a have a1: "a < length s1" by (simp add: stable_def)
  from dl_card_comments_pending [OF rest _ a1] c' a
  have "''idMemberCreator'' \<in> keys (s1 ! a)" by simp
  with st a have same: "dict_get (s1 ! a) ''memberCreator'' = dict_get (st ! a) ''memberCreator''"
    by (simp add: stable_def dict_get_def)
  have "truthy s1 (dict_get (st ! a) ''memberCreator'') = Some False"
  proof (cases "dict_get (st ! a) ''memberCreator''")
    case (PDict m)
    with f have m: "m < length st" "st ! m = []" by (auto split: if_splits)
    with st have "s1 ! m = st ! m" by (simp add: stable_def keys_def)
    with m st PDict show ?thesis by (simp add: stable_def)
  qed (use f in auto)
  with a a1 same show ?thesis by (auto simp: author_absent_def)
qed

lemma dl_card_comments_redacted:
  "dl_card_comments st cs = Inr st' \<Longrightarrow> c \<in> set cs \<Longrightarrow>
   redacted st' c \<and> (author_absent st c \<longrightarrow> has_sentinel st' c)"
proof (induction cs arbitrary: st)
  case Nil
  then show ?case by simp
next
  case (Cons c0 cs)
  then obtain s1 where s1: "redact_comment st c0 = Inr s1" "dl_card_comments s1 cs = Inr st'"
    by (auto split: sum.splits)
  have st1: "stable s1 st'" by (rule dl_card_comments_stable [OF s1(2)])
  show ?case
  proof (cases "c \<in> set cs")
    case True
    from Cons.IH [OF s1(2) True] author_absent_later [OF _ True s1]
    show ?thesis by blast
  next
    case False
    with Cons.prems have c: "c = c0" by simp
    from redact_comment_redacted [OF s1(1)] st1 have "redacted st' c"
      unfolding c by (rule redacted_stable)
    moreover have "has_sentinel st' c" if "author_absent st c"
      using redact_comment_sentinel [OF s1(1)] that st1 unfolding c
      by (blast intro: has_sentinel_stable)
    ultimately show ?thesis by blast
  qed
qed

lemma dl_card_checklists_append:
  "dl_card_checklists st cls = (st', vs) \<Longrightarrow> \<exists>new. st' = st @ new"
proof (induction cls arbitrary: st st' vs)
  case Nil
  then show ?case by simp
next
  case (Cons cl cls)
  let ?s = "st @ [[(''id'', cl_id cl), (''name'', cl_name cl), (''items'', cl_items cl)]]"
  obtain s2 vs2 where r: "dl_card_checklists ?s cls = (s2, vs2)" by (cases "dl_card_checklists ?s cls")
  with Cons.prems have "st' = s2" by (simp add: Let_def)
  with Cons.IH [OF r] show ?case by auto
qed

lemma dl_card_data_parts:
  assumes "dl_card_data st c = Inr (st', card_data)"
  obtains st1 new where "dl_card_comments st (comments c) = Inr st1" "st' = st1 @ new"
    "map_of card_data ''comments'' = Some (PList (comments c))"
proof -
  from assms obtain st1 where 1: "dl_card_comments st (comments c) = Inr st1"
    by (auto simp: dl_card_data_def split: sum.splits)
  obtain s2 vs where 2: "dl_card_checklists st1 (checklists c) = (s2, vs)"
    by (cases "dl_card_checklists st1 (checklists c)")
  from assms 1 2 have 3: "st' = s2"
    and 4: "card_data = dl_card_fields c @
              [(''comments'', PList (comments c)), (''checklists'', PList vs)]"
    by (simp_all add: dl_card_data_def)
  from dl_card_checklists_append [OF 2] 3 obtain new where 5: "st' = st1 @ new" by blast
  have 6: "map_of card_data ''comments'' = Some (PList (comments c))"
    unfolding 4 by (simp add: dl_card_fields_def)
  from 1 5 6 show ?thesis by (rule that)
qed

lemma dl_card_comments_frame:
  "dl_card_comments st cs = Inr st' \<Longrightarrow> a < length st \<Longrightarrow> PDict a \<notin> set cs \<Longrightarrow>
   (\<forall>b < length st. PDict b \<in> set cs \<longrightarrow> map_of (st ! b) ''memberCreator'' \<noteq> Some (PDict a)) \<Longrightarrow>
   st' ! a = st ! a"
proof (induction cs arbitrary: st)
  case Nil
  then show ?case by simp
next
  case (Cons c cs)
  then obtain s1 where s1: "redact_comment st c = Inr s1" "dl_card_comments s1 cs = Inr st'"
    by (auto split: sum.splits)
  have stb: "stable st s1" by (rule redact_comment_stable [OF s1(1)])
  then have a1: "a < length s1" using Cons.prems(2) by (simp add: stable_def)
  have same: "s1 ! a = st ! a"
    using s1(1)
  proof (cases rule: redact_comment_cases)
    case (author a0 m)
    with Cons.prems(3,4) have "a \<noteq> a0" "a \<noteq> m" by auto
    then show ?thesis unfolding author(8) by simp
  next
    case (sentinel a0)
    with Cons.prems(3) have "a \<noteq> a0" by auto
    then show ?thesis unfolding sentinel(5) using Cons.prems(2) by (simp add: nth_append)
  qed
  have "\<forall>b < length s1. PDict b \<in> set cs \<longrightarrow> map_of (s1 ! b) ''memberCreator'' \<noteq> Some (PDict a)"
  proof (intro allI impI)
    fix b assume b: "b < length s1" "PDict b \<in> set cs"
    from dl_card_comments_pending [OF s1(2) b(2) b(1)]
    have p: "''idMemberCreator'' \<in> keys (s1 ! b)" .
    from dl_card_comments_valid [OF Cons.prems(1), of b] b(2) have b0: "b < length st" by simp
    with stb p have "map_of (s1 ! b) ''memberCreator'' = map_of (st ! b) ''memberCreator''"
      by (simp add: stable_def)
    with Cons.prems(4) b0 b(2) show "map_of (s1 ! b) ''memberCreator'' \<noteq> Some (PDict a)"
      by simp
  qed
  from Cons.IH [OF s1(2) a1 _ this] Cons.prems(3) same show ?case by simp
qed

text \<open>Claim C2.\<close>

theorem dl_card_redaction:
  assumes "dl_card_data st c = Inr (st', card_data)"
  shows "map_of card_data ''comments'' = Some (PList (comments c)) \<and>
    (\<forall>comm \<in> set (comments c). \<exists>a m.
        comm = PDict a \<and> a < length st \<and> a < length st' \<and>
        ''idMemberCreator'' \<notin> keys (st' ! a) \<and>
        map_of (st' ! a) ''memberCreator'' = Some (PDict m) \<and> m < length st' \<and>
        ''avatarHash'' \<notin> keys (st' ! m) \<and> ''fullName'' \<notin> keys (st' ! m) \<and>
        ''initials'' \<notin> keys (st' ! m) \<and>
        (truthy st (dict_get (st ! a) ''memberCreator'') = Some False \<longrightarrow>
           st' ! m = [(''username'', PStr ''COMPTE SUPPRIME'')]))"
proof -
  from assms obtain st1 new where
    loop: "dl_card_comments st (comments c) = Inr st1" and st': "st' = st1 @ new" and
    rec: "map_of card_data ''comments'' = Some (PList (comments c))"
    by (rule dl_card_data_parts)
  have "\<exists>a m. comm = PDict a \<and> a < length st \<and> a < length st' \<and>
        ''idMemberCreator'' \<notin> keys (st' ! a) \<and>
        map_of (st' ! a) ''memberCreator'' = Some (PDict m) \<and> m < length st' \<and>
        ''avatarHash'' \<notin> keys (st' ! m) \<and> ''fullName'' \<notin> keys (st' ! m) \<and>
        ''initials'' \<notin> keys (st' ! m) \<and>
        (truthy st (dict_get (st ! a) ''memberCreator'') = Some False \<longrightarrow>
           st' ! m = [(''username'', PStr ''COMPTE SUPPRIME'')])"
    if comm: "comm \<in> set (comments c)" for comm
  proof -
    from dl_card_comments_redacted [OF loop comm]
    have red: "redacted st1 comm" and sen: "author_absent st comm \<longrightarrow> has_sentinel st1 comm"
      by blast+
    from red obtain a m where am: "comm = PDict a" "a < length st1"
      "''idMemberCreator'' \<notin> keys (st1 ! a)"
      "map_of (st1 ! a) ''memberCreator'' = Some (PDict m)" "m < length st1"
      "''avatarHash'' \<notin> keys (st1 ! m)" "''fullName'' \<notin> keys (st1 ! m)"
      "''initials'' \<notin> keys (st1 ! m)"
      unfolding redacted_def by blast
    from dl_card_comments_valid [OF loop, of a] comm am(1) have a0: "a < length st" by simp
    have nth: "st' ! a = st1 ! a" "st' ! m = st1 ! m"
      unfolding st' using am(2,5) by (simp_all add: nth_append)
    have "st' ! m = [(''username'', PStr ''COMPTE SUPPRIME'')]"
      if "truthy st (dict_get (st ! a) ''memberCreator'') = Some False"
    proof -
      from that a0 am(1) have "author_absent st comm" by (simp add: author_absent_def)
      with sen have "has_sentinel st1 comm" by simp
      with am(1,4) have "st1 ! m = sentinel" by (auto simp: has_sentinel_def)
      with nth show ?thesis by (simp add: sentinel_def)
    qed
    with am a0 nth st' show ?thesis by auto
  qed
  with rec show ?thesis by blast
qed

text \<open>Claim C6 amended\<close>

theorem dl_card_data_frame:
  assumes "dl_card_data st c = Inr (st', card_data)"
  shows "length st \<le> length st' \<and>
    map_of card_data ''comments'' = Some (PList (comments c)) \<and>
    (\<forall>a < length st.
       PDict a \<notin> set (comments c) \<and>
       (\<forall>b < length st. PDict b \<in> set (comments c) \<longrightarrow>
            map_of (st ! b) ''memberCreator'' \<noteq> Some (PDict a)) \<longrightarrow>
       st' ! a = st ! a)"
proof -
  from assms obtain st1 new where
    loop: "dl_card_comments st (comments c) = Inr st1" and st': "st' = st1 @ new" and
    rec: "map_of card_data ''comments'' = Some (PList (comments c))"
    by (rule dl_card_data_parts)
  have len: "length st \<le> length st1"
    using dl_card_comments_stable [OF loop] by (simp add: stable_def)
  have "st' ! a = st ! a"
    if "a < length st" "PDict a \<notin> set (comments c)"
       "\<forall>b < length st. PDict b \<in> set (comments c) \<longrightarrow>
            map_of (st ! b) ''memberCreator'' \<noteq> Some (PDict a)" for a
  proof -
    from dl_card_comments_frame [OF loop that] have "st1 ! a = st ! a" .
    with that(1) len show ?thesis unfolding st' by (simp add: nth_append)
  qed
  with len rec show ?thesis unfolding st' by auto
qed

theorem dl_card_mutates_comments:
  "map_sum id fst (dl_card_data st0 card0) = Inr st0_after \<and>
   PDict 0 \<in> set (comments card0) \<and> st0_after ! 0 \<noteq> st0 ! 0"
  by (simp add: dl_card_data_def st0_def card0_def st0_after_def del_item_def keys_def
      dict_get_def sentinel_def Let_def)

lemma dl_card_data_card0: "dl_card_data st0 card0 = Inr (st0_after, card0_data)"
  by (simp add: dl_card_data_def st0_def card0_def st0_after_def card0_data_def del_item_def
      keys_def dict_get_def sentinel_def Let_def)

theorem dl_card_redaction_witness:
  "dl_card_data st0 card0 = Inr (st0_after, card0_data) \<and>
   PDict 2 \<in> set (comments card0) \<and>
   truthy st0 (dict_get (st0 ! 2) ''memberCreator'') = Some False \<and>
   ''idMemberCreator'' \<notin> keys (st0_after ! 2) \<and>
   map_of (st0_after ! 2) ''memberCreator'' = Some (PDict 4) \<and>
   st0_after ! 4 = [(''username'', PStr ''COMPTE SUPPRIME'')]"
proof -
  note h = dl_card_data_card0
  have c: "PDict 2 \<in> set (comments card0)" by (simp add: card0_def)
  have f: "truthy st0 (dict_get (st0 ! 2) ''memberCreator'') = Some False"
    by (simp add: st0_def dict_get_def)
  have e: "map_of (st0_after ! 2) ''memberCreator'' = Some (PDict 4)"
    by (simp add: st0_after_def)
  from dl_card_redaction [OF h] c obtain a m where
    am: "PDict 2 = PDict a" "''idMemberCreator'' \<notin> keys (st0_after ! a)"
      "map_of (st0_after ! a) ''memberCreator'' = Some (PDict m)"
      "truthy st0 (dict_get (st0 ! a) ''memberCreator'') = Some False \<longrightarrow>
         st0_after ! m = [(''username'', PStr ''COMPTE SUPPRIME'')]"
    by blast
  from am(1) have a: "a = 2" by simp
  from am(3) e have m: "m = 4" unfolding a by simp
  from am(4) f have "st0_after ! 4 = [(''username'', PStr ''COMPTE SUPPRIME'')]"
    unfolding a m by simp
  with h c f e am(2) show ?thesis unfolding a by simp
qed

theorem dl_card_data_frame_witness:
  "dl_card_data st0 card0 = Inr (st0_after, card0_data) \<and>
   (3::nat) < length st0 \<and> PDict 3 \<notin> set (comments card0) \<and>
   st0_after ! 3 = st0 ! 3"
proof -
  note h = dl_card_data_card0
  have 1: "(3::nat) < length st0" by (simp add: st0_def)
  have 2: "PDict 3 \<notin> set (comments card0)" by (simp add: card0_def)
  have 3: "\<forall>b < length st0. PDict b \<in> set (comments card0) \<longrightarrow>
            map_of (st0 ! b) ''memberCreator'' \<noteq> Some (PDict 3)"
    by (auto simp: card0_def st0_def)
  from dl_card_data_frame [OF h] 1 2 3 have "st0_after ! 3 = st0 ! 3" by blast
  with h 1 2 show ?thesis by simp
qed


section \<open>Splitting and joining path strings\<close>

lemma split_on_nonempty [simp]: "split_on c s \<noteq> []"
  by (induction s) (auto split: list.splits)

lemma split_on_append: "split_on c (a @ c # b) = split_on c a @ split_on c b"
proof (induction a)
  case Nil
  then show ?case by simp
next
  case (Cons x a)
  obtain w ws where s: "split_on c a = w # ws"
    by (cases "split_on c a") auto
  with Cons show ?case by simp
qed

lemma split_on_absent: "c \<notin> set w \<Longrightarrow> split_on c w = [w]"
  by (induction w) auto

lemma split_on_parts: "w \<in> set (split_on c s) \<Longrightarrow> c \<notin> set w"
proof (induction s arbitrary: w)
  case Nil
  then show ?case by simp
next
  case (Cons x s)
  obtain v vs where s: "split_on c s = v # vs"
    by (cases "split_on c s") auto
  with Cons show ?case by (auto split: if_splits)
qed

lemma comps_Nil [simp]: "comps [] = []"
  by (simp add: comps_def)

lemma comps_word: "w \<noteq> [] \<Longrightarrow> CHR ''/'' \<notin> set w \<Longrightarrow> comps w = [w]"
  by (simp add: comps_def split_on_absent)

lemma comps_append_slash: "comps (a @ CHR ''/'' # b) = comps a @ comps b"
  by (simp add: comps_def split_on_append)

lemma comps_slash_end: "comps (a @ ''/'') = comps a"
  using comps_append_slash [of a "[]"] by simp

lemma comps_append:
  assumes "a = [] \<or> last a = CHR ''/''"
  shows "comps (a @ b) = comps a @ comps b"
proof (cases "a = []")
  case True
  then show ?thesis by simp
next
  case False
  with assms obtain a' where a: "a = a' @ ''/''"
    by (metis append_butlast_last_id)
  show ?thesis
    unfolding a using comps_append_slash [of a' b] comps_slash_end [of a'] by simp
qed

lemma comps_parts: "w \<in> set (comps s) \<Longrightarrow> w \<noteq> [] \<and> CHR ''/'' \<notin> set w"
  by (auto simp: comps_def dest: split_on_parts)

lemma isabs_Nil [simp]: "\<not> isabs []"
  by (simp add: isabs_def)

lemma isabs_append: "a \<noteq> [] \<Longrightarrow> isabs (a @ b) = isabs a"
  by (cases a) (auto simp: isabs_def)

lemma not_isabs_word: "CHR ''/'' \<notin> set w \<Longrightarrow> \<not> isabs w"
  by (cases w) (auto simp: isabs_def)

text \<open>One step of \<open>os.path.join\<close> with a relative component.\<close>

lemma join_step_relative: "\<not> isabs b \<Longrightarrow> join_step q b = join_prefix q @ b"
  by (cases b) (auto simp: join_step_def join_prefix_def isabs_def)

lemma join_prefix_ends: "join_prefix q = [] \<or> last (join_prefix q) = CHR ''/''"
  by (simp add: join_prefix_def)

lemma comps_join_prefix [simp]: "comps (join_prefix q) = comps q"
  by (simp add: join_prefix_def comps_slash_end)

lemma isabs_join_prefix [simp]: "isabs (join_prefix q) = isabs q"
  by (cases q) (auto simp: join_prefix_def isabs_def)

lemma join_prefix_Nil [simp]: "join_prefix q = [] \<longleftrightarrow> q = []"
  by (simp add: join_prefix_def)

lemma comps_join_step: "\<not> isabs b \<Longrightarrow> comps (join_step a b) = comps a @ comps b"
  by (simp add: join_step_relative comps_append [OF join_prefix_ends])

lemma isabs_join_step: "\<not> isabs b \<Longrightarrow> isabs (join_step a b) = isabs a"
  by (cases "a = []") (simp_all add: join_step_relative isabs_append join_prefix_def)

lemma sanitize_no_slash [simp]: "CHR ''/'' \<notin> set (sanitize f)"
  by (auto simp: sanitize_def str_replace_def)

lemma sanitize_no_space [simp]: "CHR '' '' \<notin> set (sanitize f)"
  by (auto simp: sanitize_def str_replace_def)

lemma sanitize_Nil [simp]: "sanitize f = [] \<longleftrightarrow> f = []"
  by (simp add: sanitize_def str_replace_def)

lemma sanitize_append: "sanitize (a @ b) = sanitize a @ sanitize b"
  by (simp add: sanitize_def str_replace_def)

lemma sanitize_fixed: "CHR ''/'' \<notin> set f \<Longrightarrow> CHR '' '' \<notin> set f \<Longrightarrow> sanitize f = f"
  by (simp add: sanitize_def str_replace_fixed)

lemma str_replace_join_step:
  assumes "\<not> isabs b"
  shows "str_replace CHR '' '' CHR ''_'' (join_step q b) =
         join_step (str_replace CHR '' '' CHR ''_'' q) (str_replace CHR '' '' CHR ''_'' b)"
proof -
  let ?sp = "str_replace CHR '' '' CHR ''_''"
  have nb: "\<not> isabs (?sp b)"
    using assms by (cases b) (auto simp: isabs_def str_replace_def)
  have jp: "?sp (join_prefix q) = join_prefix (?sp q)"
  proof (cases "q = []")
    case True
    then show ?thesis by (simp add: join_prefix_def str_replace_def)
  next
    case False
    then have "last (?sp q) = CHR ''/'' \<longleftrightarrow> last q = CHR ''/''"
      by (auto simp: str_replace_def last_map)
    with False show ?thesis
      by (auto simp: join_prefix_def str_replace_def)
  qed
  show ?thesis
    by (simp add: join_step_relative assms nb str_replace_append jp)
qed

lemma normpath_snoc:
  "normpath root (frags @ [f]) = join_step (normpath root frags) (sanitize f)"
proof -
  have "\<not> isabs (str_replace CHR ''/'' CHR ''-'' f)"
    by (rule not_isabs_word) (simp add: str_replace_absent)
  then show ?thesis
    by (simp add: normpath_def os_path_join_def str_replace_join_step sanitize_def)
qed

lemma normpath_Nil: "normpath root [] = str_replace CHR '' '' CHR ''_'' root"
  by (simp add: normpath_def os_path_join_def)

lemma isabs_normpath: "isabs (normpath root frags) = isabs root"
proof (induction frags rule: rev_induct)
  case Nil
  show ?case by (cases root) (auto simp: normpath_Nil isabs_def str_replace_def)
next
  case (snoc f frags)
  then show ?case
    by (simp add: normpath_snoc isabs_join_step not_isabs_word)
qed

lemma comps_normpath:
  "list_all (\<lambda>f. f \<noteq> []) frags \<Longrightarrow>
   comps (normpath root frags) = comps (normpath root []) @ map sanitize frags"
proof (induction frags rule: rev_induct)
  case Nil
  show ?case by simp
next
  case (snoc f frags)
  then show ?case
    by (simp add: normpath_snoc comps_join_step not_isabs_word comps_word)
qed

lemma is_name_sanitize:
  "f \<noteq> [] \<Longrightarrow> f \<noteq> ''.'' \<Longrightarrow> f \<noteq> ''..'' \<Longrightarrow> is_name (sanitize f)"
  by (auto simp: is_name_def sanitize_def str_replace_def split: if_splits)


section \<open>Normalising paths and \<open>os.path.relpath\<close>\<close>

lemma norm_step_nonzero: "i \<noteq> 0 \<Longrightarrow> norm_step i = norm_step (Suc 0)"
  by (intro ext) (simp add: norm_step_def)

lemma foldl_norm_step_filter:
  "foldl (norm_step i) acc (filter (\<lambda>w. w \<noteq> []) xs) = foldl (norm_step i) acc xs"
  by (induction xs arbitrary: acc) (simp_all add: norm_step_def)

lemma names_append [simp]: "names (xs @ ys) \<longleftrightarrow> names xs \<and> names ys"
  by (simp add: names_def)

lemma names_Nil [simp]: "names []"
  by (simp add: names_def)

lemma names_Cons [simp]: "names (x # xs) \<longleftrightarrow> is_name x \<and> names xs"
  by (simp add: names_def)

lemma names_butlast: "names xs \<Longrightarrow> names (butlast xs)"
  by (induction xs) auto

lemma names_last: "names xs \<Longrightarrow> xs \<noteq> [] \<Longrightarrow> is_name (last xs)"
  by (induction xs) auto

lemma names_take: "names xs \<Longrightarrow> names (take k xs)"
  by (simp add: names_def list_all_iff) (meson in_set_takeD)

lemma names_drop: "names xs \<Longrightarrow> names (drop k xs)"
  by (simp add: names_def list_all_iff) (meson in_set_dropD)

lemma norm_step_names:
  assumes "names acc" "CHR ''/'' \<notin> set c"
  shows "names (norm_step (Suc 0) acc c)"
proof -
  have "last acc \<noteq> ''..''" if "acc \<noteq> []"
    using names_last [OF assms(1) that] by (auto simp: is_name_def)
  with assms show ?thesis
    by (auto simp: norm_step_def is_name_def names_butlast)
qed

lemma foldl_norm_step_names:
  "names acc \<Longrightarrow> \<forall>c \<in> set xs. CHR ''/'' \<notin> set c \<Longrightarrow> names (foldl (norm_step (Suc 0)) acc xs)"
  by (induction xs arbitrary: acc) (simp_all add: norm_step_names)

lemma foldl_norm_step_append_names:
  "names xs \<Longrightarrow> foldl (norm_step (Suc 0)) acc xs = acc @ xs"
  by (induction xs arbitrary: acc) (auto simp: norm_step_def is_name_def)

lemma foldl_norm_step_up:
  "names acc \<Longrightarrow> foldl (norm_step (Suc 0)) acc (replicate k ''..'') = take (length acc - k) acc"
proof (induction k arbitrary: acc)
  case 0
  then show ?case by simp
next
  case (Suc k)
  have nl: "last acc \<noteq> ''..''" if "acc \<noteq> []"
    using names_last [OF Suc.prems that] by (auto simp: is_name_def)
  have step: "norm_step (Suc 0) acc ''..'' = butlast acc"
    using nl by (cases "acc = []") (auto simp: norm_step_def)
  have "foldl (norm_step (Suc 0)) (butlast acc) (replicate k ''..'') =
        take (length (butlast acc) - k) (butlast acc)"
    by (rule Suc.IH) (rule names_butlast [OF Suc.prems])
  also have "\<dots> = take (length acc - Suc k) acc"
    by (simp add: butlast_conv_take min_def)
  finally show ?case by (simp add: step)
qed

lemma nfold_names: "names xs \<Longrightarrow> nfold xs = xs"
  by (simp add: nfold_def foldl_norm_step_append_names)

lemma names_nfold: "\<forall>c \<in> set xs. CHR ''/'' \<notin> set c \<Longrightarrow> names (nfold xs)"
  unfolding nfold_def by (rule foldl_norm_step_names) simp_all

lemma comps_join_with:
  "list_all (\<lambda>w. w \<noteq> [] \<and> CHR ''/'' \<notin> set w) ws \<Longrightarrow> comps (join_with ''/'' ws) = ws"
proof (induction "''/''" ws rule: join_with.induct)
  case 1
  then show ?case by simp
next
  case (2 w)
  then show ?case by (simp add: comps_word)
next
  case (3 w v vs)
  then show ?case
    using comps_append_slash [of w "join_with ''/'' (v # vs)"] by (simp add: comps_word)
qed

lemma names_words: "names ws \<Longrightarrow> list_all (\<lambda>w. w \<noteq> [] \<and> CHR ''/'' \<notin> set w) ws"
  by (simp add: names_def list_all_iff is_name_def)

lemma comps_slashes: "comps (replicate i CHR ''/'') = []"
proof (induction i)
  case 0
  show ?case by simp
next
  case (Suc i)
  have "comps (CHR ''/'' # replicate i CHR ''/'') = comps [] @ comps (replicate i CHR ''/'')"
    using comps_append_slash [of "[]" "replicate i CHR ''/''"] by simp
  with Suc show ?case by simp
qed

lemma comps_from_root: "comps (replicate (Suc i) CHR ''/'' @ s) = comps s"
proof -
  have "last (replicate (Suc i) CHR ''/'') = CHR ''/''" by simp
  then have "comps (replicate (Suc i) CHR ''/'' @ s) = comps (replicate (Suc i) CHR ''/'') @ comps s"
    by (intro comps_append) simp
  then show ?thesis by (simp only: comps_slashes append_Nil)
qed

lemma os_path_normpath_abs:
  assumes "isabs s"
  shows "isabs (os_path_normpath s) \<and> comps (os_path_normpath s) = nfold (comps s)"
proof -
  from assms have s: "s \<noteq> []" "hd s = CHR ''/''" by (auto simp: isabs_def)
  define i :: nat where
    "i = (if take 2 s = ''//'' \<and> take 3 s \<noteq> ''///'' then 2 else 1)"
  obtain j where j: "i = Suc j" by (cases i) (auto simp: i_def split: if_splits)
  define nc where "nc = foldl (norm_step i) [] (split_on CHR ''/'' s)"
  have np: "os_path_normpath s = replicate i CHR ''/'' @ join_with ''/'' nc"
    using s by (simp add: os_path_normpath_def Let_def i_def nc_def j [unfolded i_def])
  have "nc = foldl (norm_step (Suc 0)) [] (filter (\<lambda>w. w \<noteq> []) (split_on CHR ''/'' s))"
    unfolding nc_def using norm_step_nonzero [of i] j by (simp add: foldl_norm_step_filter)
  then have nc: "nc = nfold (comps s)" by (simp add: nfold_def comps_def)
  have "names nc" unfolding nc by (rule names_nfold) (auto dest: comps_parts)
  then have "comps (join_with ''/'' nc) = nc"
    by (intro comps_join_with names_words)
  then have "comps (os_path_normpath s) = nc"
    unfolding np j by (simp only: comps_from_root)
  moreover have "isabs (os_path_normpath s)"
    unfolding np j by (simp add: isabs_def)
  ultimately show ?thesis using nc by simp
qed

lemma os_getcwd_names:
  assumes "is_dir fs cwd" "names cwd"
  shows "\<exists>d. os_getcwd fs cwd = Inr d \<and> isabs d \<and> comps d = cwd"
proof -
  have "comps (''/'' @ join_with ''/'' cwd) = comps ''/'' @ comps (join_with ''/'' cwd)"
    by (intro comps_append) simp
  also have "comps ''/'' = []" using comps_slashes [of 1] by simp
  finally have "comps (''/'' @ join_with ''/'' cwd) = cwd"
    using comps_join_with [OF names_words [OF assms(2)]] by simp
  with assms(1) show ?thesis by (simp add: os_getcwd_def isabs_def)
qed

lemma os_path_abspath_comps:
  assumes "isabs s \<or> (is_dir fs cwd \<and> names cwd)"
  shows "\<exists>a. os_path_abspath fs cwd s = Inr a \<and> isabs a \<and>
             comps a = nfold (base_dir cwd s @ comps s)"
proof (cases "isabs s")
  case True
  with os_path_normpath_abs [OF True] show ?thesis
    by (simp add: os_path_abspath_def base_dir_def)
next
  case False
  with assms have "is_dir fs cwd" "names cwd" by simp_all
  from os_getcwd_names [OF this] obtain d where
    d: "os_getcwd fs cwd = Inr d" "isabs d" "comps d = cwd" by blast
  have "isabs (join_step d s)" using False d(2) by (simp add: isabs_join_step)
  from os_path_normpath_abs [OF this] False d show ?thesis
    by (simp add: os_path_abspath_def base_dir_def comps_join_step)
qed

lemma os_path_abspath_normal:
  assumes "os_path_abspath fs cwd s = Inr a"
  shows "isabs a \<and> names (comps a)"
proof (cases "isabs s")
  case True
  from os_path_normpath_abs [OF True] assms True show ?thesis
    by (auto simp: os_path_abspath_def intro: names_nfold dest: comps_parts)
next
  case False
  with assms obtain d where d: "os_getcwd fs cwd = Inr d" "a = os_path_normpath (join_step d s)"
    by (auto simp: os_path_abspath_def split: sum.splits)
  from d(1) have "isabs d" by (auto simp: os_getcwd_def isabs_def split: if_splits)
  with False have "isabs (join_step d s)" by (simp add: isabs_join_step)
  from os_path_normpath_abs [OF this] d(2) show ?thesis
    by (auto intro: names_nfold dest: comps_parts)
qed

lemma commonprefix_take:
  "commonprefix xs ys = take (length (commonprefix xs ys)) xs \<and>
   commonprefix xs ys = take (length (commonprefix xs ys)) ys"
  by (induction xs ys rule: commonprefix.induct) auto

lemma commonprefix_length:
  "length (commonprefix xs ys) \<le> length xs \<and> length (commonprefix xs ys) \<le> length ys"
  by (induction xs ys rule: commonprefix.induct) auto

lemma commonprefix_append:
  "commonprefix (r @ xs) (r @ ys) = r @ commonprefix xs ys"
  by (induction r) auto

lemma comps_os_path_join:
  "\<forall>w \<in> set ws. \<not> isabs w \<Longrightarrow> comps (os_path_join a ws) = comps a @ concat (map comps ws)"
  unfolding os_path_join_def
  by (induction ws arbitrary: a) (simp_all add: comps_join_step)

lemma isabs_os_path_join:
  "\<forall>w \<in> set ws. \<not> isabs w \<Longrightarrow> isabs (os_path_join a ws) = isabs a"
  unfolding os_path_join_def
  by (induction ws arbitrary: a) (simp_all add: isabs_join_step)

lemma os_path_join_nonempty: "a \<noteq> [] \<Longrightarrow> \<forall>w \<in> set ws. \<not> isabs w \<Longrightarrow> os_path_join a ws \<noteq> []"
  unfolding os_path_join_def
proof (induction ws arbitrary: a)
  case Nil
  then show ?case by simp
next
  case (Cons w ws)
  then have "join_step a w \<noteq> []" by (simp add: join_step_relative)
  with Cons show ?case by simp
qed

lemma concat_map_comps_words:
  "list_all (\<lambda>w. w \<noteq> [] \<and> CHR ''/'' \<notin> set w) ws \<Longrightarrow> concat (map comps ws) = ws"
  by (induction ws) (simp_all add: comps_word)

text \<open>The string that \<open>relpath\<close> builds from its list of components.\<close>

lemma rel_list_string:
  assumes "list_all (\<lambda>w. w \<noteq> [] \<and> CHR ''/'' \<notin> set w) rl" "rl \<noteq> []"
  shows "comps (os_path_join (hd rl) (tl rl)) = rl \<and> \<not> isabs (os_path_join (hd rl) (tl rl)) \<and>
         os_path_join (hd rl) (tl rl) \<noteq> []"
proof -
  from assms obtain w ws where rl: "rl = w # ws" by (cases rl) auto
  with assms(1) have w: "w \<noteq> []" "CHR ''/'' \<notin> set w"
    and ws: "list_all (\<lambda>w. w \<noteq> [] \<and> CHR ''/'' \<notin> set w) ws" by simp_all
  have na: "\<forall>v \<in> set ws. \<not> isabs v"
  proof
    fix v assume "v \<in> set ws"
    with ws have "CHR ''/'' \<notin> set v" by (simp add: list_all_iff)
    then show "\<not> isabs v" by (rule not_isabs_word)
  qed
  have "comps (os_path_join w ws) = w # ws"
    using comps_os_path_join [OF na, of w] concat_map_comps_words [OF ws] w
    by (simp add: comps_word)
  moreover have "\<not> isabs (os_path_join w ws)"
    using isabs_os_path_join [OF na, of w] not_isabs_word [OF w(2)] by simp
  moreover have "os_path_join w ws \<noteq> []"
    using os_path_join_nonempty [OF w(1) na] .
  ultimately show ?thesis by (simp add: rl)
qed

lemma os_path_relpath_result:
  assumes "os_path_relpath fs cwd p start = Inr rel"
  shows "p \<noteq> [] \<and> (\<exists>a b. os_path_abspath fs cwd start = Inr a \<and> os_path_abspath fs cwd p = Inr b \<and>
     (let i = length (commonprefix (comps a) (comps b));
          rl = replicate (length (comps a) - i) ''..'' @ drop i (comps b)
      in rel = (if rl = [] then ''.'' else os_path_join (hd rl) (tl rl))))"
  using assms by (auto simp: os_path_relpath_def Let_def split: if_splits sum.splits)

text \<open>
  \<open>relpath\<close> is right lexically: joining the absolute start directory with the relative
  path and normalising gives the absolute path of the target.
\<close>

lemma os_path_relpath_correct:
  assumes rel: "os_path_relpath fs cwd p start = Inr rel"
    and a: "os_path_abspath fs cwd start = Inr a"
    and b: "os_path_abspath fs cwd p = Inr b"
  shows "rel \<noteq> [] \<and> \<not> isabs rel \<and> comps (os_path_normpath (join_step a rel)) = comps b"
proof -
  from os_path_abspath_normal [OF a] have na: "isabs a" "names (comps a)" by simp_all
  from os_path_abspath_normal [OF b] have nb: "isabs b" "names (comps b)" by simp_all
  define i where "i = length (commonprefix (comps a) (comps b))"
  define rl where "rl = replicate (length (comps a) - i) ''..'' @ drop i (comps b)"
  from os_path_relpath_result [OF rel] a b
  have r: "rel = (if rl = [] then ''.'' else os_path_join (hd rl) (tl rl))"
    by (simp add: Let_def i_def rl_def)
  have words: "list_all (\<lambda>w. w \<noteq> [] \<and> CHR ''/'' \<notin> set w) rl"
    unfolding rl_def using names_words [OF names_drop [OF nb(2), of i]]
    by (auto simp: list_all_iff)
  have cp: "take i (comps a) = take i (comps b)"
    using commonprefix_take [of "comps a" "comps b"] by (simp add: i_def)
  have ile: "i \<le> length (comps a)" "i \<le> length (comps b)"
    using commonprefix_length [of "comps a" "comps b"] by (simp_all add: i_def)
  have fold: "foldl (norm_step (Suc 0)) (comps a) rl = comps b"
  proof -
    have "foldl (norm_step (Suc 0)) (comps a) rl =
          foldl (norm_step (Suc 0)) (take (length (comps a) - (length (comps a) - i)) (comps a))
            (drop i (comps b))"
      unfolding rl_def by (simp add: foldl_norm_step_up [OF na(2)])
    also have "\<dots> = take i (comps a) @ drop i (comps b)"
      using ile by (simp add: foldl_norm_step_append_names [OF names_drop [OF nb(2)]])
    also have "\<dots> = comps b" unfolding cp by simp
    finally show ?thesis .
  qed
  have props: "rel \<noteq> [] \<and> \<not> isabs rel \<and> foldl (norm_step (Suc 0)) (comps a) (comps rel) = comps b"
  proof (cases "rl = []")
    case True
    with r have "rel = ''.''" by simp
    moreover have "comps ''.'' = [''.'']" by (simp add: comps_word)
    moreover from True fold have "comps a = comps b" by simp
    ultimately show ?thesis by (simp add: isabs_def norm_step_def)
  next
    case False
    with r have "rel = os_path_join (hd rl) (tl rl)" by simp
    with rel_list_string [OF words False] fold show ?thesis by simp
  qed
  then have nr: "\<not> isabs rel" by simp
  have j: "isabs (join_step a rel)" using nr na(1) by (simp add: isabs_join_step)
  have "comps (os_path_normpath (join_step a rel)) = nfold (comps a @ comps rel)"
    using os_path_normpath_abs [OF j] nr by (simp add: comps_join_step)
  also have "\<dots> = foldl (norm_step (Suc 0)) (nfold (comps a)) (comps rel)"
    by (simp add: nfold_def)
  also have "\<dots> = comps b"
    using props by (simp add: nfold_names [OF na(2)])
  finally show ?thesis using props by simp
qed


section \<open>File-system operations\<close>

lemma node_at_root [simp]: "node_at fs [] = Some Dir"
  by (simp add: node_at_def)

lemma is_dir_root [simp]: "is_dir fs []"
  by (simp add: is_dir_def)

lemma node_at_set_node:
  "p \<noteq> [] \<Longrightarrow> node_at (set_node fs p n) q = (if q = p then Some n else node_at fs q)"
  by (simp add: node_at_def set_node_def update_conv')

lemma map_of_filter_key:
  "map_of (filter (\<lambda>(k, v). P k) xs) k = (if P k then map_of xs k else None)"
  by (induction xs) auto

lemma node_at_remove_tree:
  "p \<noteq> [] \<Longrightarrow> node_at (remove_tree fs p) q = (if prefix p q then None else node_at fs q)"
  by (auto simp: node_at_def remove_tree_def map_of_filter_key)

lemma resolve_follow_not_link:
  "resolve n fs True cur cs = Inr p \<Longrightarrow> node_at fs p \<noteq> Some (Link t)"
proof (induction n fs "True" cur cs rule: resolve.induct)
  case (1 n fs cur)
  then show ?case by (auto simp: is_dir_def split: if_splits)
next
  case (2 n fs cur c cs)
  then show ?case
    by (auto simp: is_dir_def split: if_splits option.splits node.splits nat.splits)
qed

lemma namei_follow_not_link: "namei fs cwd True s = Inr p \<Longrightarrow> node_at fs p \<noteq> Some (Link t)"
  by (auto simp: namei_def split: if_splits dest: resolve_follow_not_link)

lemma open_write_Inr:
  "open_write fs cwd s data = Inr fs' \<longleftrightarrow>
     (\<exists>p. namei fs cwd True s = Inr p \<and> node_at fs p \<noteq> Some Dir \<and> fs' = set_node fs p (File data))"
  by (auto simp: open_write_def split: sum.splits option.splits node.splits
      dest: namei_follow_not_link)

lemma open_write_fails: "(\<exists>x. open_write fs cwd s data = Inl x) \<longleftrightarrow> blob_unwritable fs cwd s"
  by (auto simp: open_write_def blob_unwritable_def split: sum.splits option.splits node.splits
      dest: namei_follow_not_link)

lemma open_write_Inl:
  "open_write fs cwd s data = Inl x \<Longrightarrow>
     blob_unwritable fs cwd s \<and> (\<exists>er. x = (IOError er, fs))"
  by (auto simp: open_write_def blob_unwritable_def split: sum.splits option.splits node.splits
      dest: namei_follow_not_link)

lemma os_symlink_Inr:
  "os_symlink fs cwd target s = Inr fs' \<longleftrightarrow>
     target \<noteq> [] \<and>
     (\<exists>q. namei fs cwd False s = Inr q \<and> node_at fs q = None \<and> fs' = set_node fs q (Link target))"
  by (auto simp: os_symlink_def split: sum.splits)

lemma os_symlink_fails:
  "target \<noteq> [] \<Longrightarrow>
   (\<exists>x. os_symlink fs cwd target s = Inl x) \<longleftrightarrow>
     parent_missing fs cwd s \<or> entry_exists fs cwd s"
  by (auto simp: os_symlink_def parent_missing_def entry_exists_def split: sum.splits)

lemma os_symlink_Inl:
  "os_symlink fs cwd target s = Inl x \<Longrightarrow> \<exists>er. x = (OSError er, fs)"
  by (auto simp: os_symlink_def split: sum.splits if_splits)

lemma os_path_relpath_succeeds:
  assumes "p \<noteq> []" "is_dir fs cwd"
  shows "\<exists>rel. os_path_relpath fs cwd p start = Inr rel"
proof -
  have "\<exists>a. os_path_abspath fs cwd s = Inr a" for s
    using assms(2) by (simp add: os_path_abspath_def os_getcwd_def)
  then obtain a b where "os_path_abspath fs cwd start = Inr a" "os_path_abspath fs cwd p = Inr b"
    by blast
  with assms(1) show ?thesis by (simp add: os_path_relpath_def Let_def)
qed


section \<open>The deletion step\<close>

lemma foldl_git_rm_stale:
  "foldl (git_rm_stale cur) w prev =
     w\<lparr>w_git := w_git w @ map (\<lambda>f. [''git'', ''rm'', f]) (filter (\<lambda>f. f \<notin> set cur) prev)\<rparr>"
  by (induction prev arbitrary: w) (simp_all add: git_rm_stale_def git_cmd_def)

lemma rm_commands_set:
  "{f. [''git'', ''rm'', f] \<in> set (map (\<lambda>f. [''git'', ''rm'', f]) fs @
        [[''git'', ''add'', ''.''], [''git'', ''commit'', ''-m'', msg],
         [''git'', ''push'', ''origin'', ''master'']])} = set fs"
  by auto

text \<open>
  Claim C1.  When \<open>gitit\<close> completes, the git commands it has issued are one
  \<open>git rm\<close> for each file of the pre-run snapshot that is not among the files found
  under the blob store and the current-view tree now, in the order of the snapshot,
  followed by \<open>git add .\<close>, the commit and the push; so the set of files for which a
  removal is issued is exactly the pre-run set minus the post-run set.
\<close>

theorem gitit_removes_stale_files:
  assumes "gitit blobs_root tree_root now w repo_path prev_files = Inr w'"
  shows "\<exists>d. os_chdir (w_fs w) (w_cwd w) repo_path = Inr d \<and>
     w_git w' = w_git w @
        map (\<lambda>f. [''git'', ''rm'', f])
          (filter (\<lambda>f. f \<notin> set (get_current_files (w_fs w) d blobs_root tree_root)) prev_files) @
        [[''git'', ''add'', ''.''], [''git'', ''commit'', ''-m'', ''backup - '' @ now],
         [''git'', ''push'', ''origin'', ''master'']] \<and>
     {f. [''git'', ''rm'', f] \<in> set (drop (length (w_git w)) (w_git w'))} =
        set prev_files - set (get_current_files (w_fs w) d blobs_root tree_root)"
proof -
  from assms obtain old_dir d d' where
    d: "os_chdir (w_fs w) (w_cwd w) repo_path = Inr d" and
    w': "w' = (git_push (git_commit now
                (foldl (git_rm_stale (get_current_files (w_fs w) d blobs_root tree_root))
                   (w\<lparr>w_cwd := d\<rparr>) prev_files)))\<lparr>w_cwd := d'\<rparr>"
    by (auto simp: gitit_def Let_def split: sum.splits)
  let ?cur = "get_current_files (w_fs w) d blobs_root tree_root"
  let ?rm = "map (\<lambda>f. [''git'', ''rm'', f]) (filter (\<lambda>f. f \<notin> set ?cur) prev_files)"
  let ?rest = "[[''git'', ''add'', ''.''], [''git'', ''commit'', ''-m'', ''backup - '' @ now],
         [''git'', ''push'', ''origin'', ''master'']]"
  have log: "w_git w' = w_git w @ ?rm @ ?rest"
    unfolding w' by (simp add: foldl_git_rm_stale git_push_def git_commit_def git_cmd_def)
  have "{f. [''git'', ''rm'', f] \<in> set (?rm @ ?rest)} = set (filter (\<lambda>f. f \<notin> set ?cur) prev_files)"
    by (rule rm_commands_set)
  then have "{f. [''git'', ''rm'', f] \<in> set (drop (length (w_git w)) (w_git w'))} =
        set prev_files - set ?cur"
    unfolding log by auto
  with d log show ?thesis by blast
qed

lemma gitit_example:
  "gitit ''/r/raw_tickets'' ''/r/current'' ''now''
      \<lparr>w_fs = fs_b, w_cwd = [], w_store = [], w_git = []\<rparr> ''/r''
      [''/r/raw_tickets/c1.yaml'', ''/r/current/b/1_x.yaml'', ''/r/raw_tickets/c2.yaml''] =
   Inr \<lparr>w_fs = fs_b, w_cwd = [], w_store = [],
        w_git = [[''git'', ''rm'', ''/r/raw_tickets/c2.yaml''], [''git'', ''add'', ''.''],
                 [''git'', ''commit'', ''-m'', ''backup - now''],
                 [''git'', ''push'', ''origin'', ''master'']]\<rparr>"
  by code_simp

lemma get_current_files_example:
  "get_current_files fs_b [''r''] ''/r/raw_tickets'' ''/r/current'' =
     [''/r/raw_tickets/c1.yaml'', ''/r/current/b/1_x.yaml'']"
  by code_simp

lemma os_chdir_example: "os_chdir fs_b [] ''/r'' = Inr [''r'']"
  by code_simp

theorem gitit_removes_stale_files_witness:
  "gitit ''/r/raw_tickets'' ''/r/current'' ''now''
      \<lparr>w_fs = fs_b, w_cwd = [], w_store = [], w_git = []\<rparr> ''/r''
      [''/r/raw_tickets/c1.yaml'', ''/r/current/b/1_x.yaml'', ''/r/raw_tickets/c2.yaml''] =
   Inr \<lparr>w_fs = fs_b, w_cwd = [], w_store = [],
        w_git = [[''git'', ''rm'', ''/r/raw_tickets/c2.yaml''], [''git'', ''add'', ''.''],
                 [''git'', ''commit'', ''-m'', ''backup - now''],
                 [''git'', ''push'', ''origin'', ''master'']]\<rparr> \<and>
   {f. [''git'', ''rm'', f] \<in> set [[''git'', ''rm'', ''/r/raw_tickets/c2.yaml''],
          [''git'', ''add'', ''.''], [''git'', ''commit'', ''-m'', ''backup - now''],
          [''git'', ''push'', ''origin'', ''master'']]} = {''/r/raw_tickets/c2.yaml''}"
proof -
  note h = gitit_example
  from gitit_removes_stale_files [OF h] obtain d where
    d: "os_chdir fs_b [] ''/r'' = Inr d" and
    s: "{f. [''git'', ''rm'', f] \<in> set [[''git'', ''rm'', ''/r/raw_tickets/c2.yaml''],
          [''git'', ''add'', ''.''], [''git'', ''commit'', ''-m'', ''backup - now''],
          [''git'', ''push'', ''origin'', ''master'']]} =
        set [''/r/raw_tickets/c1.yaml'', ''/r/current/b/1_x.yaml'', ''/r/raw_tickets/c2.yaml''] -
        set (get_current_files fs_b d ''/r/raw_tickets'' ''/r/current'')"
    by auto
  from d have "d = [''r'']" by (simp add: os_chdir_example)
  with s get_current_files_example
  have "{f. [''git'', ''rm'', f] \<in> set [[''git'', ''rm'', ''/r/raw_tickets/c2.yaml''],
          [''git'', ''add'', ''.''], [''git'', ''commit'', ''-m'', ''backup - now''],
          [''git'', ''push'', ''origin'', ''master'']]} = {''/r/raw_tickets/c2.yaml''}"
    by auto
  with h show ?thesis by blast
qed


section \<open>Wiping a directory through the shell\<close>

text \<open>
  Claim C8 (the code does not meet it).  \<open>wipe_dir\<close> hands the path to the shell
  unquoted.  For the board ``Sales (EU)'' with id 5 the command is
  \<^verbatim>\<open>rm -r /r/current/5_Sales_(EU)\<close>, which the shell rejects as a syntax error:
  nothing is removed, \<open>mkdir\<close> finds the directory present, and the call returns
  normally with the directory still holding its old content.
\<close>

theorem wipe_dir_leaves_content:
  "wipe_dir ''/r'' fs_paren [] [''current'', ''5_Sales (EU)''] = Inr fs_paren \<and>
   listdir fs_paren [''r'', ''current'', ''5_Sales_(EU)''] = [''7_Todo'']"
  by code_simp

text \<open>
  The consequence for the orchestrator: the first backup of that board (one list, one
  card) succeeds and produces \<open>fs_paren\<close>; the next one stops with
  \<open>OSError(EEXIST)\<close> when it recreates the first link.
\<close>

lemma retrieve_trello_data_paren_first:
  "retrieve_trello_data lib0 ''/r''
     \<lparr>w_fs = [([''r''], Dir), ([''r'', ''raw_tickets''], Dir)], w_cwd = [], w_store = [],
      w_git = []\<rparr> [board_paren] =
   Inr \<lparr>w_fs = fs_paren, w_cwd = [], w_store = [], w_git = []\<rparr>"
  by code_simp

lemma retrieve_trello_data_paren_second:
  "retrieve_trello_data lib0 ''/r''
     \<lparr>w_fs = fs_paren, w_cwd = [], w_store = [], w_git = []\<rparr> [board_paren] =
   Inl (OSError EEXIST)"
  by code_simp

text \<open>
  Claim C7 (the code does not meet it).  The same unquoted command is split by the shell
  at a tab.  With the root \<open>results\<close> (relative to the working directory
  \<open>/home\<close>) and a board named \<open>x<TAB>results\<close> the command has the two
  operands \<open>results/current/5_x\<close> and \<open>results\<close>: the wipe removes the whole
  backup root, the blob store included, and then recreates only the board directory.
  The board has neither lists nor cards, so the wipe is the only file-system operation of
  the run.
\<close>

theorem wipe_dir_deletes_blobs:
  "retrieve_trello_data lib0 ''results''
     \<lparr>w_fs = fs_tab, w_cwd = [''home''], w_store = [], w_git = []\<rparr> [board_tab] =
   Inr \<lparr>w_fs = fs_tab_after, w_cwd = [''home''], w_store = [], w_git = []\<rparr> \<and>
   wipe_dir ''results'' fs_tab [''home''] [''current'', b_id board_tab @ ''_'' @ b_name board_tab] =
     Inr fs_tab_after \<and>
   node_at fs_tab [''home'', ''results'', ''raw_tickets'', ''c1.yaml''] = Some (File ''yaml'') \<and>
   node_at fs_tab_after [''home'', ''results'', ''raw_tickets'', ''c1.yaml''] = None \<and>
   node_at fs_tab_after [''home'', ''results'', ''raw_tickets''] = None"
  by code_simp

text \<open>
  Claim C9, as stated, fails: the link's parent directory exists and nothing is at the
  link path, yet the operation fails, because the directory of the blob is missing.
\<close>

theorem write_card_fails_on_missing_blob_dir:
  "write_card fs_noblobdir [] ''/r/raw_tickets/c1.yaml'' ''/r/current/b/1_x.yaml'' ''data'' =
     Inl (IOError ENOENT, fs_noblobdir) \<and>
   is_dir fs_noblobdir [''r'', ''current'', ''b''] \<and>
   node_at fs_noblobdir [''r'', ''current'', ''b'', ''1_x.yaml''] = None"
  by code_simp


section \<open>Writing a blob and its link\<close>

text \<open>
  Claim C9, amended.  For a non-empty blob path and an existing working directory,
  \<open>write_card\<close> fails exactly when the blob cannot be opened for writing or, the
  payload written, the directory of the link cannot be reached or an entry already exists
  at the link path.  A failure of the first kind is an \<open>IOError\<close> and leaves the file
  system as it was; one of the second kind is an \<open>OSError\<close> and leaves the payload
  written.  On success the blob holds the payload, the link path holds a symbolic link,
  nothing else has changed, and the target of the link is
  \<open>relpath(blob_path, dirname(tree_path))\<close>: joined to the absolute directory of the
  link and normalised, it gives the absolute path of the blob.
\<close>

theorem write_card_outcome:
  assumes "blob_path \<noteq> []" "is_dir fs cwd"
  shows
   "((\<exists>x. write_card fs cwd blob_path tree_path data = Inl x) \<longleftrightarrow>
       blob_unwritable fs cwd blob_path \<or>
       (\<exists>fs1. open_write fs cwd blob_path data = Inr fs1 \<and>
              (parent_missing fs1 cwd tree_path \<or> entry_exists fs1 cwd tree_path))) \<and>
    (\<forall>e fs'. write_card fs cwd blob_path tree_path data = Inl (e, fs') \<longrightarrow>
       (\<exists>er. e = IOError er \<and> fs' = fs) \<or>
       (\<exists>er. e = OSError er \<and> open_write fs cwd blob_path data = Inr fs')) \<and>
    (\<forall>fs'. write_card fs cwd blob_path tree_path data = Inr fs' \<longrightarrow>
       (\<exists>p q rel a b.
          namei fs cwd True blob_path = Inr p \<and>
          namei (set_node fs p (File data)) cwd False tree_path = Inr q \<and>
          fs' = set_node (set_node fs p (File data)) q (Link rel) \<and>
          node_at fs' p = Some (File data) \<and> node_at fs' q = Some (Link rel) \<and>
          (\<forall>x. x \<noteq> p \<and> x \<noteq> q \<longrightarrow> node_at fs' x = node_at fs x) \<and>
          os_path_relpath fs cwd blob_path (os_path_dirname tree_path) = Inr rel \<and>
          os_path_abspath fs cwd (os_path_dirname tree_path) = Inr a \<and>
          os_path_abspath fs cwd blob_path = Inr b \<and>
          comps (os_path_normpath (join_step a rel)) = comps b))"
proof -
  from os_path_relpath_succeeds [OF assms] obtain rel where
    rel: "os_path_relpath fs cwd blob_path (os_path_dirname tree_path) = Inr rel" by blast
  from os_path_relpath_result [OF rel] obtain a b where
    a: "os_path_abspath fs cwd (os_path_dirname tree_path) = Inr a" and
    b: "os_path_abspath fs cwd blob_path = Inr b" by blast
  from os_path_relpath_correct [OF rel a b] have
    rne: "rel \<noteq> []" and lex: "comps (os_path_normpath (join_step a rel)) = comps b"
    by simp_all
  have wc: "write_card fs cwd blob_path tree_path data =
      (case open_write fs cwd blob_path data of
         Inl x \<Rightarrow> Inl x
       | Inr fs1 \<Rightarrow> os_symlink fs1 cwd rel tree_path)"
    by (simp add: write_card_def rel)
  have 1: "(\<exists>x. write_card fs cwd blob_path tree_path data = Inl x) \<longleftrightarrow>
       blob_unwritable fs cwd blob_path \<or>
       (\<exists>fs1. open_write fs cwd blob_path data = Inr fs1 \<and>
              (parent_missing fs1 cwd tree_path \<or> entry_exists fs1 cwd tree_path))"
  proof (cases "open_write fs cwd blob_path data")
    case (Inl x)
    with open_write_fails [of fs cwd blob_path data] wc show ?thesis by auto
  next
    case (Inr fs1)
    with open_write_fails [of fs cwd blob_path data]
    have "\<not> blob_unwritable fs cwd blob_path" by auto
    with Inr wc os_symlink_fails [OF rne, of fs1 cwd tree_path] show ?thesis by auto
  qed
  have 2: "(\<exists>er. e = IOError er \<and> fs' = fs) \<or>
       (\<exists>er. e = OSError er \<and> open_write fs cwd blob_path data = Inr fs')"
    if "write_card fs cwd blob_path tree_path data = Inl (e, fs')" for e fs'
  proof (cases "open_write fs cwd blob_path data")
    case (Inl x)
    with that wc open_write_Inl [OF Inl] show ?thesis by auto
  next
    case (Inr fs1)
    with that wc have "os_symlink fs1 cwd rel tree_path = Inl (e, fs')" by simp
    from os_symlink_Inl [OF this] Inr show ?thesis by auto
  qed
  have 3: "\<exists>p q rel a b.
          namei fs cwd True blob_path = Inr p \<and>
          namei (set_node fs p (File data)) cwd False tree_path = Inr q \<and>
          fs' = set_node (set_node fs p (File data)) q (Link rel) \<and>
          node_at fs' p = Some (File data) \<and> node_at fs' q = Some (Link rel) \<and>
          (\<forall>x. x \<noteq> p \<and> x \<noteq> q \<longrightarrow> node_at fs' x = node_at fs x) \<and>
          os_path_relpath fs cwd blob_path (os_path_dirname tree_path) = Inr rel \<and>
          os_path_abspath fs cwd (os_path_dirname tree_path) = Inr a \<and>
          os_path_abspath fs cwd blob_path = Inr b \<and>
          comps (os_path_normpath (join_step a rel)) = comps b"
    if "write_card fs cwd blob_path tree_path data = Inr fs'" for fs'
  proof -
    from that wc obtain fs1 where
      o: "open_write fs cwd blob_path data = Inr fs1" and
      s: "os_symlink fs1 cwd rel tree_path = Inr fs'"
      by (auto split: sum.splits)
    from o obtain p where p: "namei fs cwd True blob_path = Inr p" "node_at fs p \<noteq> Some Dir"
      "fs1 = set_node fs p (File data)"
      by (auto simp: open_write_Inr)
    from s obtain q where q: "namei fs1 cwd False tree_path = Inr q" "node_at fs1 q = None"
      "fs' = set_node fs1 q (Link rel)"
      by (auto simp: os_symlink_Inr)
    from p(2) have pne: "p \<noteq> []" by auto
    from q(2) have qne: "q \<noteq> []" by auto
    from q(2) pne have pq: "p \<noteq> q" unfolding p(3) by (auto simp: node_at_set_node)
    have n1: "node_at fs' p = Some (File data)"
      unfolding q(3) p(3) using pne qne pq by (simp add: node_at_set_node)
    have n2: "node_at fs' q = Some (Link rel)"
      unfolding q(3) using qne by (simp add: node_at_set_node)
    have n3: "\<forall>x. x \<noteq> p \<and> x \<noteq> q \<longrightarrow> node_at fs' x = node_at fs x"
      unfolding q(3) p(3) using pne qne by (simp add: node_at_set_node)
    from p(1) q(1,3) n1 n2 n3 rel a b lex show ?thesis
      unfolding p(3) by blast
  qed
  from 1 2 3 show ?thesis by blast
qed

lemma write_card_example:
  "write_card fs_a [''r''] ''raw_tickets/c1.yaml'' ''current/b/1_x.yaml'' ''data'' =
     Inr (fs_a @ [([''r'', ''raw_tickets'', ''c1.yaml''], File ''data''),
                  ([''r'', ''current'', ''b'', ''1_x.yaml''], Link ''../../raw_tickets/c1.yaml'')])"
  by code_simp

theorem write_card_outcome_witness:
  "''raw_tickets/c1.yaml'' \<noteq> [] \<and> is_dir fs_a [''r''] \<and>
   write_card fs_a [''r''] ''raw_tickets/c1.yaml'' ''current/b/1_x.yaml'' ''data'' =
     Inr (fs_a @ [([''r'', ''raw_tickets'', ''c1.yaml''], File ''data''),
                  ([''r'', ''current'', ''b'', ''1_x.yaml''], Link ''../../raw_tickets/c1.yaml'')]) \<and>
   \<not> blob_unwritable fs_a [''r''] ''raw_tickets/c1.yaml'' \<and>
   os_path_relpath fs_a [''r''] ''raw_tickets/c1.yaml'' (os_path_dirname ''current/b/1_x.yaml'') =
     Inr ''../../raw_tickets/c1.yaml''"
proof -
  have 1: "''raw_tickets/c1.yaml'' \<noteq> []" by simp
  have 2: "is_dir fs_a [''r'']" by code_simp
  note t = write_card_outcome [OF 1 2, of "''current/b/1_x.yaml''" "''data''"]
  note h = write_card_example
  from t h have 3: "\<not> blob_unwritable fs_a [''r''] ''raw_tickets/c1.yaml''" by auto
  have 4: "os_path_relpath fs_a [''r''] ''raw_tickets/c1.yaml''
             (os_path_dirname ''current/b/1_x.yaml'') = Inr ''../../raw_tickets/c1.yaml''"
    by code_simp
  from 1 2 h 3 4 show ?thesis by blast
qed


end
